theory Spec2Isabelle
  imports Complex_Main "HOL-Library.Sublist" "HOL-Library.AList"
begin

section \<open>Strings and characters\<close>

text \<open>
  A JavaScript string is a sequence of UTF-16 code units. The model takes the code units
  below 256 (the Latin-1 range), the 8-bit \<^typ>\<open>char\<close> of HOL, and a string is a
  \<^typ>\<open>string\<close>. The character classes and case mappings below are the ECMAScript
  ones restricted to that range.
\<close>

definition is_space :: "char \<Rightarrow> bool" where
  \<comment> \<open>\<open>\s\<close>, and the set \<open>trim\<close> removes: TAB, LF, VT, FF, CR, SP, NBSP\<close>
  "is_space c \<longleftrightarrow> c \<in> set [CHR 0x09, CHR 0x0A, CHR 0x0B, CHR 0x0C, CHR 0x0D, CHR 0x20, CHR 0xA0]"

definition is_digit :: "char \<Rightarrow> bool" where
  \<comment> \<open>\<open>\d\<close>\<close>
  "is_digit c \<longleftrightarrow> c \<in> set ''0123456789''"

definition is_line_terminator :: "char \<Rightarrow> bool" where
  \<comment> \<open>what \<open>.\<close> does not match: LF and CR (U+2028 and U+2029 are outside the range)\<close>
  "is_line_terminator c \<longleftrightarrow> c = CHR 0x0A \<or> c = CHR 0x0D"

definition lower_char :: "char \<Rightarrow> char" where
  \<comment> \<open>\<open>toLowerCase\<close> on one code unit: A-Z, and the Latin-1 capitals except the
      multiplication sign\<close>
  "lower_char c =
     (let n = (of_char c :: nat) in
      if (65 \<le> n \<and> n \<le> 90) \<or> (192 \<le> n \<and> n \<le> 222 \<and> n \<noteq> 215)
      then char_of (n + 32) else c)"

definition toLowerCase :: "string \<Rightarrow> string" where
  "toLowerCase s = map lower_char s"

definition canonicalize :: "char \<Rightarrow> nat" where
  \<comment> \<open>The regular expression \<open>i\<close> flag compares the upper-cased code units: a-z, the
      Latin-1 small letters except the division sign; the micro sign and y with diaeresis
      have their capitals outside Latin-1, the sharp s (whose capital is two units) stays.\<close>
  "canonicalize c =
     (let n = (of_char c :: nat) in
      if (97 \<le> n \<and> n \<le> 122) \<or> (224 \<le> n \<and> n \<le> 254 \<and> n \<noteq> 247) then n - 32
      else if n = 181 then 924
      else if n = 255 then 376
      else n)"

definition trim :: "string \<Rightarrow> string" where
  "trim s = rev (dropWhile is_space (rev (dropWhile is_space s)))"

definition slice :: "string \<Rightarrow> nat \<Rightarrow> nat \<Rightarrow> string" where
  \<comment> \<open>\<open>s.slice(i, j)\<close> for indices that are not negative; empty when \<open>j \<le> i\<close>\<close>
  "slice s i j = take (j - i) (drop i s)"

fun indexOf :: "string \<Rightarrow> string \<Rightarrow> nat option" where
  \<comment> \<open>\<open>hay.indexOf(needle)\<close>; \<open>None\<close> is the source's -1\<close>
  "indexOf [] needle = (if needle = [] then Some 0 else None)"
| "indexOf (c # cs) needle =
     (if prefix needle (c # cs) then Some 0 else map_option Suc (indexOf cs needle))"

section \<open>Regular expressions\<close>

text \<open>
  The regular expressions of the source are terms of \<open>regex\<close>, and \<open>rmatch\<close> is a
  backtracking matcher: it returns, in the order a backtracking engine tries them, every
  way the expression can match at the start of the input, as the rest of the input and
  the text of capture group 1. The first element is the match JavaScript reports.
  A starred expression does not iterate on an empty match, as in ECMAScript.
\<close>

datatype atom =
    Lit char            \<comment> \<open>a literal character\<close>
  | AnyChar             \<comment> \<open>\<open>[\s\S]\<close>\<close>
  | Dot                 \<comment> \<open>\<open>.\<close>\<close>
  | Digit               \<comment> \<open>\<open>\d\<close>\<close>
  | Space               \<comment> \<open>\<open>\s\<close>\<close>
  | OneOf string        \<comment> \<open>\<open>[...]\<close>\<close>
  | NoneOf string       \<comment> \<open>\<open>[^...]\<close>\<close>

datatype regex =
    Atom atom
  | Eps
  | Seq regex regex
  | Alt regex regex
  | Star regex          \<comment> \<open>\<open>r*\<close>, greedy\<close>
  | LazyStar regex      \<comment> \<open>\<open>r*?\<close>\<close>
  | Cap regex           \<comment> \<open>capture group 1\<close>

fun atom_ok :: "bool \<Rightarrow> atom \<Rightarrow> char \<Rightarrow> bool" where
  "atom_ok ci (Lit a) c = (if ci then canonicalize a = canonicalize c else a = c)"
| "atom_ok ci AnyChar c = True"
| "atom_ok ci Dot c = (\<not> is_line_terminator c)"
| "atom_ok ci Digit c = is_digit c"
| "atom_ok ci Space c = is_space c"
| "atom_ok ci (OneOf as) c =
     (if ci then canonicalize c \<in> set (map canonicalize as) else c \<in> set as)"
| "atom_ok ci (NoneOf as) c =
     (if ci then canonicalize c \<notin> set (map canonicalize as) else c \<notin> set as)"

type_synonym mstate = "string \<times> string option"

function rmatch :: "bool \<Rightarrow> regex \<Rightarrow> mstate \<Rightarrow> mstate list" where
  "rmatch ci (Atom a) (s, cap) =
     (case s of [] \<Rightarrow> [] | c # cs \<Rightarrow> if atom_ok ci a c then [(cs, cap)] else [])"
| "rmatch ci Eps st = [st]"
| "rmatch ci (Seq r1 r2) st = concat (map (rmatch ci r2) (rmatch ci r1 st))"
| "rmatch ci (Alt r1 r2) st = rmatch ci r1 st @ rmatch ci r2 st"
| "rmatch ci (Star r) (s, cap) =
     concat (map (\<lambda>st'. if length (fst st') < length s then rmatch ci (Star r) st' else [])
                 (rmatch ci r (s, cap)))
     @ [(s, cap)]"
| "rmatch ci (LazyStar r) (s, cap) =
     (s, cap) #
     concat (map (\<lambda>st'. if length (fst st') < length s then rmatch ci (LazyStar r) st' else [])
                 (rmatch ci r (s, cap)))"
| "rmatch ci (Cap r) (s, cap) =
     map (\<lambda>st'. (fst st', Some (take (length s - length (fst st')) s))) (rmatch ci r (s, cap))"
  by pat_completeness auto
termination
  by (relation "measures [\<lambda>(ci, r, st). size r, \<lambda>(ci, r, st). length (fst st)]") auto

definition Str :: "string \<Rightarrow> regex" where
  \<comment> \<open>a sequence of literal characters\<close>
  "Str s = foldr (\<lambda>c r. Seq (Atom (Lit c)) r) s Eps"

definition Plus :: "regex \<Rightarrow> regex" where
  \<comment> \<open>\<open>r+\<close>\<close>
  "Plus r = Seq r (Star r)"

definition Opt :: "regex \<Rightarrow> regex" where
  \<comment> \<open>\<open>r?\<close>, greedy: the expression first, then nothing\<close>
  "Opt r = Alt r Eps"

definition exec_at :: "bool \<Rightarrow> regex \<Rightarrow> string \<Rightarrow> mstate option" where
  \<comment> \<open>the match that starts at the first character of the input, if there is one\<close>
  "exec_at ci r s = (case rmatch ci r (s, None) of [] \<Rightarrow> None | st # _ \<Rightarrow> Some st)"

fun regex_match :: "bool \<Rightarrow> regex \<Rightarrow> string \<Rightarrow> string option option" where
  \<comment> \<open>\<open>s.match(r)\<close> without the \<open>g\<close> flag, read at \<open>[1]\<close>: the leftmost match;
      \<open>None\<close> is \<open>null\<close>, \<open>Some None\<close> a match in which group 1 took no part\<close>
  "regex_match ci r [] = map_option snd (exec_at ci r [])"
| "regex_match ci r (c # cs) =
     (case exec_at ci r (c # cs) of
        Some st \<Rightarrow> Some (snd st)
      | None \<Rightarrow> regex_match ci r cs)"

function replace_all :: "bool \<Rightarrow> regex \<Rightarrow> string \<Rightarrow> string \<Rightarrow> string" where
  \<comment> \<open>\<open>s.replace(r, rep)\<close> with the \<open>g\<close> flag and a replacement without \<open>$\<close>: matches
      are taken left to right, each search starting where the last match ended, one
      character further after an empty match\<close>
  "replace_all ci r rep s =
     (case exec_at ci r s of
        Some (rest, cap) \<Rightarrow>
          if length rest < length s then rep @ replace_all ci r rep rest
          else rep @ (case s of [] \<Rightarrow> [] | c # cs \<Rightarrow> c # replace_all ci r rep cs)
      | None \<Rightarrow> (case s of [] \<Rightarrow> [] | c # cs \<Rightarrow> c # replace_all ci r rep cs))"
  by pat_completeness auto
termination
  by (relation "measure (\<lambda>(ci, r, rep, s). length s)") auto

declare replace_all.simps [simp del]

section \<open>The text normalizer (api/cron.js, htmlToText)\<close>

definition script_block :: regex where
  \<comment> \<open>\<open><script[\s\S]*?<\/script>\<close>\<close>
  "script_block = Seq (Str ''<script'') (Seq (LazyStar (Atom AnyChar)) (Str ''</script>''))"

definition style_block :: regex where
  \<comment> \<open>\<open><style[\s\S]*?<\/style>\<close>\<close>
  "style_block = Seq (Str ''<style'') (Seq (LazyStar (Atom AnyChar)) (Str ''</style>''))"

definition any_tag :: regex where
  \<comment> \<open>\<open><[^>]+>\<close>\<close>
  "any_tag = Seq (Atom (Lit CHR ''<'')) (Seq (Plus (Atom (NoneOf ''>''))) (Atom (Lit CHR ''>'')))"

definition nbsp_entity :: regex where
  \<comment> \<open>\<open>&nbsp;\<close>\<close>
  "nbsp_entity = Str ''&nbsp;''"

definition spaces :: regex where
  \<comment> \<open>\<open>\s+\<close>\<close>
  "spaces = Plus (Atom Space)"

definition htmlToText :: "string \<Rightarrow> string" where
  "htmlToText html =
     trim
       (replace_all False spaces '' ''
         (replace_all False nbsp_entity '' ''
           (replace_all False any_tag '' ''
             (replace_all True style_block '' ''
               (replace_all True script_block '' '' html)))))"

section \<open>Numbers\<close>

text \<open>
  A JavaScript number is an IEEE double. The numbers of this program are whole, so a
  finite number is an \<^typ>\<open>int\<close>; \<open>to_double\<close> rounds a natural number to the
  nearest double (ties to even, 53 significant bits), \<open>None\<close> being \<open>Infinity\<close>.
\<close>

datatype number = NaN | PosInfinity | NegInfinity | Finite int

function shift53 :: "nat \<Rightarrow> nat" where
  \<comment> \<open>how many low bits of \<open>n\<close> do not fit in 53 bits\<close>
  "shift53 n = (if n < 2 ^ 53 then 0 else Suc (shift53 (n div 2)))"
  by pat_completeness auto
termination
  by (relation "measure (\<lambda>n. n)") auto

declare shift53.simps [simp del]

definition to_double :: "nat \<Rightarrow> nat option" where
  "to_double n =
     (let e = shift53 n; q = n div 2 ^ e; r = n mod 2 ^ e;
          up = (2 ^ e < 2 * r \<or> (2 * r = 2 ^ e \<and> odd q));
          m = (if up then q + 1 else q) * 2 ^ e
      in if 2 ^ 1024 \<le> m then None else Some m)"

definition digit_value :: "char \<Rightarrow> nat" where
  "digit_value c = of_char c - 48"

definition digits_value :: "string \<Rightarrow> nat" where
  \<comment> \<open>the value of a string of decimal digits\<close>
  "digits_value ds = foldl (\<lambda>acc d. 10 * acc + digit_value d) 0 ds"

definition parseInt :: "string \<Rightarrow> number" where
  \<comment> \<open>\<open>Number.parseInt(s, 10)\<close>: leading white space, a sign, then the longest run of
      digits; \<open>NaN\<close> when there is no digit\<close>
  "parseInt s =
     (let t = dropWhile is_space s;
          negative = (case t of [] \<Rightarrow> False | c # _ \<Rightarrow> c = CHR ''-'');
          u = (case t of [] \<Rightarrow> [] | c # cs \<Rightarrow> if c = CHR ''-'' \<or> c = CHR ''+'' then cs else t);
          ds = takeWhile is_digit u
      in if ds = [] then NaN
         else (case to_double (digits_value ds) of
                 None \<Rightarrow> if negative then NegInfinity else PosInfinity
               | Some m \<Rightarrow> Finite (if negative then - int m else int m)))"

fun replace_str :: "string \<Rightarrow> string \<Rightarrow> string \<Rightarrow> string" where
  \<comment> \<open>\<open>s.replace(pat, rep)\<close> for a string pattern: the first occurrence only\<close>
  "replace_str pat rep [] = (if pat = [] then rep else [])"
| "replace_str pat rep (c # cs) =
     (if prefix pat (c # cs) then rep @ drop (length pat) (c # cs)
      else c # replace_str pat rep cs)"

section \<open>The status extractor (api/cron.js, parseStatuses)\<close>

record js_error =
  err_name :: string
  message :: string
  cause_code :: "string option"    \<comment> \<open>\<open>e?.cause?.code\<close>\<close>

definition type_error :: js_error where
  \<comment> \<open>reading \<open>.trim\<close> of \<open>match[1]\<close> when group 1 is \<open>undefined\<close>\<close>
  "type_error =
     \<lparr>err_name = ''TypeError'',
      message = ''Cannot read properties of undefined (reading trim)'',
      cause_code = None\<rparr>"

definition garageNames :: "string list" where
  "garageNames = [''South Garage'', ''North Garage'', ''West Garage'', ''South Campus Garage'']"

definition status_pattern :: "string \<Rightarrow> regex" where
  \<comment> \<open>\<open>${escapeRegExp(name)}.*?(?:\d+\s+[SNWE].*?)?\s+(Full|\d+\s*%)\<close>; escaping makes
      every character of the name a literal, which \<open>Str\<close> is\<close>
  "status_pattern name =
     Seq (Str name)
      (Seq (LazyStar (Atom Dot))
        (Seq (Opt (Seq (Plus (Atom Digit))
                    (Seq (Plus (Atom Space))
                      (Seq (Atom (OneOf ''SNWE'')) (LazyStar (Atom Dot))))))
          (Seq (Plus (Atom Space))
            (Cap (Alt (Str ''Full'')
                      (Seq (Plus (Atom Digit))
                        (Seq (Star (Atom Space)) (Atom (Lit CHR ''%'')))))))))"

definition positions :: "string \<Rightarrow> (string \<times> nat) list" where
  \<comment> \<open>the names found, with the index of their first occurrence, sorted by index
      (\<open>Array.prototype.sort\<close> is stable)\<close>
  "positions text =
     sort_key snd
       (List.map_filter
          (\<lambda>name. map_option (Pair name) (indexOf (toLowerCase text) (toLowerCase name)))
          garageNames)"

definition status_value :: "string \<Rightarrow> int option" where
  \<comment> \<open>what the loop stores for the text of group 1, \<open>None\<close> when it stores nothing:
      \<open>Full\<close> is 100, anything else is parsed as a whole number\<close>
  "status_value m1 =
     (let statusText = trim m1 in
      if toLowerCase statusText = ''full'' then Some 100
      else (let numberStr = trim (replace_str ''%'' '''' statusText) in
            case parseInt numberStr of
              Finite n \<Rightarrow> Some n
            | _ \<Rightarrow> None))"

fun scan_segments ::
  "string \<Rightarrow> (string \<times> nat) list \<Rightarrow> (string \<times> int) list \<Rightarrow> js_error + (string \<times> int) list"
where
  \<comment> \<open>the \<open>for\<close> loop; \<open>statuses\<close> is the object, its keys in insertion order\<close>
  "scan_segments text [] statuses = Inr statuses"
| "scan_segments text ((name, idx) # rest) statuses =
     (let nextIdx = (case rest of [] \<Rightarrow> length text | (_, j) # _ \<Rightarrow> j);
          segment = slice text idx nextIdx
      in case regex_match True (status_pattern name) segment of
           None \<Rightarrow> scan_segments text rest statuses
         | Some None \<Rightarrow> Inl type_error
         | Some (Some m1) \<Rightarrow>
             (case status_value m1 of
                Some n \<Rightarrow> scan_segments text rest (AList.update name n statuses)
              | None \<Rightarrow> scan_segments text rest statuses))"

definition parseStatuses :: "string \<Rightarrow> js_error + (string \<times> int) list" where
  "parseStatuses text = scan_segments text (positions text) []"

section \<open>The garage-status record (src/lib/garages.ts)\<close>

record garage_row =
  fetched_at :: string
  last_updated :: "string option"
  garage :: string
  status :: int
  source_url :: string

definition GARAGES :: "string list" where
  "GARAGES = [''South Garage'', ''North Garage'', ''West Garage'', ''South Campus Garage'']"

section \<open>The page fetcher (api/cron.js, fetchWithTimeout and fetchGarageStatusPage)\<close>

text \<open>
  The network is an input of the model. An attempt is what a request does when nothing
  stops it: after \<open>latency\<close> milliseconds it settles, with an error or with a value.
  Every request the job makes is written to a trace, in the order the job makes them.

  The fallback request is not bounded in its total time: \<open>req.setTimeout(10_000, f)\<close>
  runs \<open>f\<close> when the connected socket has been without activity for 10 s. So what the
  model is given of a fallback request is \<open>idle\<close>, the longest time in milliseconds its
  connected socket stays silent before the request ends or fails, and \<open>outcome\<close>, how
  it ends when it is not destroyed: an \<open>error\<close> event, or the \<open>end\<close> of a response with
  its \<open>statusCode\<close> and the data received. How long the request takes in all is of no
  consequence to the code and is not part of the model.
\<close>

record 'a attempt =
  latency :: nat
  settles :: "js_error + 'a"

record unverified_attempt =
  idle :: nat
  outcome :: "js_error + nat option \<times> string"

record response =
  resp_ok :: bool
  resp_status :: nat
  resp_text :: "js_error + string"    \<comment> \<open>what \<open>await resp.text()\<close> gives\<close>

datatype event =
    FetchGet string                       \<comment> \<open>\<open>fetch(url)\<close>\<close>
  | HttpsGetUnverified string             \<comment> \<open>\<open>https.get(url, {rejectUnauthorized: false})\<close>\<close>
  | ClockRead                             \<comment> \<open>\<open>new Date()\<close>\<close>
  | FetchPost string "garage_row list"    \<comment> \<open>\<open>fetch(endpoint, {method: "POST", body})\<close>\<close>

record world =
  page_fetch :: "response attempt"
  page_fallback :: unverified_attempt
  store_post :: "response attempt"
  now :: string                                        \<comment> \<open>\<open>new Date().toISOString()\<close>\<close>

definition abort_error :: js_error where
  \<comment> \<open>what \<open>fetch\<close> rejects with when its signal is aborted\<close>
  "abort_error =
     \<lparr>err_name = ''AbortError'', message = ''This operation was aborted'', cause_code = None\<rparr>"

definition fetchWithTimeout :: "nat \<Rightarrow> 'a attempt \<Rightarrow> js_error + 'a" where
  \<comment> \<open>the timer aborts the request at \<open>timeoutMs\<close> unless it has settled\<close>
  "fetchWithTimeout timeoutMs att =
     (if latency att < timeoutMs then settles att else Inl abort_error)"

definition tlsCodes :: "string list" where
  "tlsCodes =
     [''UNABLE_TO_VERIFY_LEAF_SIGNATURE'', ''DEPTH_ZERO_SELF_SIGNED_CERT'',
      ''SELF_SIGNED_CERT_IN_CHAIN'']"

definition tls_has :: "string option \<Rightarrow> bool" where
  \<comment> \<open>\<open>tlsCodes.has(code)\<close>; \<open>None\<close> is \<open>undefined\<close>\<close>
  "tls_has code = (case code of None \<Rightarrow> False | Some c \<Rightarrow> c \<in> set tlsCodes)"

definition fallback_timeout_error :: js_error where
  "fallback_timeout_error =
     \<lparr>err_name = ''Error'', message = ''Timeout fetching garage status page'',
      cause_code = None\<rparr>"

definition https_get_unverified :: "unverified_attempt \<Rightarrow> js_error + response" where
  \<comment> \<open>the promise around \<open>https.get\<close>: rejected by an \<open>error\<close> event, also the one of
      the request destroyed after 10 s of silence on its socket; resolved at \<open>end\<close>\<close>
  "https_get_unverified att =
     (if idle att < 10000 then
        (case outcome att of
           Inl e \<Rightarrow> Inl e
         | Inr (statusCode, data) \<Rightarrow>
             (let status = (case statusCode of None \<Rightarrow> 0 | Some n \<Rightarrow> n) in
              Inr \<lparr>resp_ok = (200 \<le> status \<and> status < 300), resp_status = status,
                   resp_text = Inr data\<rparr>))
      else Inl fallback_timeout_error)"

definition fetchGarageStatusPage :: "world \<Rightarrow> string \<Rightarrow> (js_error + response) \<times> event list" where
  "fetchGarageStatusPage w url =
     (case fetchWithTimeout 10000 (page_fetch w) of
        Inr resp \<Rightarrow> (Inr resp, [FetchGet url])
      | Inl e \<Rightarrow>
          if \<not> tls_has (cause_code e) then (Inl e, [FetchGet url])
          else (https_get_unverified (page_fallback w), [FetchGet url, HttpsGetUnverified url]))"

section \<open>The ingestion job (api/cron.js, handler)\<close>

datatype json =
    JUndefined
  | JNull
  | JBool bool
  | JNum int
  | JStr string
  | JObj "(string \<times> json) list"

record http_reply =
  code :: nat
  headers :: "(string \<times> string) list"
  body :: json

datatype token_param = NoToken | OneToken string | ManyTokens "string list"

record request =
  req_method :: string
  authorization :: "string option"
  query_token :: token_param

record env =
  CRON_SECRET :: "string option"
  SUPABASE_URL :: "string option"
  SUPABASE_KEY :: "string option"

definition getRequestToken :: "request \<Rightarrow> string option" where
  "getRequestToken req =
     (case query_token req of
        NoToken \<Rightarrow> None
      | OneToken t \<Rightarrow> Some t
      | ManyTokens ts \<Rightarrow> (case ts of [] \<Rightarrow> None | t # _ \<Rightarrow> Some t))"

definition truthy :: "string option \<Rightarrow> string option" where
  \<comment> \<open>a string that is neither \<open>undefined\<close> nor empty\<close>
  "truthy v = (case v of None \<Rightarrow> None | Some s \<Rightarrow> if s = [] then None else Some s)"

definition strip_slash :: "string \<Rightarrow> string" where
  \<comment> \<open>\<open>s.replace(/\/$/, "")\<close>\<close>
  "strip_slash s = (if s \<noteq> [] \<and> last s = CHR ''/'' then butlast s else s)"

definition sourceUrl :: string where
  "sourceUrl = ''https://sjsuparkingstatus.sjsu.edu/GarageStatusPlain''"

definition json_opt :: "string option \<Rightarrow> json \<Rightarrow> json" where
  "json_opt v d = (case v of None \<Rightarrow> d | Some s \<Rightarrow> JStr s)"

definition json_statuses :: "(string \<times> int) list \<Rightarrow> json" where
  "json_statuses statuses = JObj (map (\<lambda>(g, s). (g, JNum s)) statuses)"

definition make_rows :: "string \<Rightarrow> string option \<Rightarrow> (string \<times> int) list \<Rightarrow> garage_row list" where
  \<comment> \<open>\<open>Object.entries(statuses).map(...)\<close>\<close>
  "make_rows fetchedAt lastUpdated statuses =
     map (\<lambda>(g, s). \<lparr>fetched_at = fetchedAt, last_updated = lastUpdated, garage = g,
                     status = s, source_url = sourceUrl\<rparr>) statuses"

definition try_body ::
  "(string \<Rightarrow> string option) \<Rightarrow> world \<Rightarrow> string \<Rightarrow> string \<Rightarrow> (js_error + http_reply) \<times> event list"
where
  \<comment> \<open>the body of the \<open>try\<close>: \<open>Inl\<close> is what it throws to the \<open>catch\<close>. The function
      \<open>parseLastUpdated\<close> of the source is the parameter of the same name.\<close>
  "try_body parseLastUpdated w supabaseUrl supabaseKey =
     (case fetchGarageStatusPage w sourceUrl of
        (Inl e, tr) \<Rightarrow> (Inl e, tr)
      | (Inr pageResp, tr) \<Rightarrow>
          if \<not> resp_ok pageResp then
            (let b = (case resp_text pageResp of Inl _ \<Rightarrow> [] | Inr t \<Rightarrow> t) in
             (Inr \<lparr>code = 502, headers = [],
                   body = JObj [(''error'', JStr ''Failed to fetch garage status page''),
                                (''status'', JNum (int (resp_status pageResp))),
                                (''body'', JStr (take 500 b))]\<rparr>, tr))
          else
            (case resp_text pageResp of
               Inl e \<Rightarrow> (Inl e, tr)
             | Inr html \<Rightarrow>
                 (let text = htmlToText html;
                      lastUpdated = parseLastUpdated text
                  in case parseStatuses text of
                       Inl e \<Rightarrow> (Inl e, tr)
                     | Inr statuses \<Rightarrow>
                         (let fetchedAt = now w;
                              tr1 = tr @ [ClockRead];
                              rows = make_rows fetchedAt lastUpdated statuses
                          in if length rows = 0 then
                               (Inr \<lparr>code = 200, headers = [],
                                     body = JObj [(''ok'', JBool True), (''inserted'', JNum 0),
                                                  (''fetchedAt'', JStr fetchedAt),
                                                  (''lastUpdated'', json_opt lastUpdated JNull),
                                                  (''statuses'', json_statuses statuses),
                                                  (''note'', JStr ''No statuses parsed; nothing inserted'')]\<rparr>,
                                tr1)
                             else
                               (let endpoint = strip_slash supabaseUrl @ ''/rest/v1/garage_status'';
                                    tr2 = tr1 @ [FetchPost endpoint rows]
                                in case fetchWithTimeout 10000 (store_post w) of
                                     Inl e \<Rightarrow>
                                       (Inr \<lparr>code = 502, headers = [],
                                             body = JObj [(''error'', JStr ''Supabase insert failed''),
                                                          (''message'', JStr (message e)),
                                                          (''causeCode'', json_opt (cause_code e) JUndefined),
                                                          (''fetchedAt'', JStr fetchedAt),
                                                          (''lastUpdated'', json_opt lastUpdated JNull),
                                                          (''statuses'', json_statuses statuses)]\<rparr>,
                                        tr2)
                                   | Inr resp \<Rightarrow>
                                       if \<not> resp_ok resp then
                                         (let b = (case resp_text resp of Inl _ \<Rightarrow> [] | Inr t \<Rightarrow> t) in
                                          (Inr \<lparr>code = 502, headers = [],
                                                body = JObj [(''error'', JStr ''Supabase insert failed''),
                                                             (''status'', JNum (int (resp_status resp))),
                                                             (''body'', JStr (take 2000 b)),
                                                             (''fetchedAt'', JStr fetchedAt),
                                                             (''lastUpdated'', json_opt lastUpdated JNull),
                                                             (''statuses'', json_statuses statuses)]\<rparr>,
                                           tr2))
                                       else
                                         (Inr \<lparr>code = 200, headers = [],
                                               body = JObj [(''ok'', JBool True),
                                                            (''inserted'', JNum (int (length rows))),
                                                            (''fetchedAt'', JStr fetchedAt),
                                                            (''lastUpdated'', json_opt lastUpdated JNull),
                                                            (''statuses'', json_statuses statuses)]\<rparr>,
                                          tr2))))))"

definition handler ::
  "(string \<Rightarrow> string option) \<Rightarrow> env \<Rightarrow> world \<Rightarrow> request \<Rightarrow> http_reply \<times> event list"
where
  "handler parseLastUpdated ev w req =
     (if req_method req \<noteq> ''GET'' \<and> req_method req \<noteq> ''HEAD'' then
        (\<lparr>code = 405, headers = [(''Allow'', ''GET, HEAD'')],
          body = JObj [(''error'', JStr ''Method not allowed'')]\<rparr>, [])
      else
        (case truthy (CRON_SECRET ev) of
           None \<Rightarrow>
             (\<lparr>code = 500, headers = [],
               body = JObj [(''error'', JStr ''CRON_SECRET is not set in the environment'')]\<rparr>, [])
         | Some cronSecret \<Rightarrow>
             (let auth = (case truthy (authorization req) of None \<Rightarrow> [] | Some a \<Rightarrow> a);
                  token = getRequestToken req;
                  authed = (auth = ''Bearer '' @ cronSecret \<or> token = Some cronSecret)
              in if \<not> authed then
                   (\<lparr>code = 401, headers = [],
                     body = JObj [(''error'', JStr ''Unauthorized'')]\<rparr>, [])
                 else
                   (case (truthy (SUPABASE_URL ev), truthy (SUPABASE_KEY ev)) of
                      (Some supabaseUrl, Some supabaseKey) \<Rightarrow>
                        (case try_body parseLastUpdated w supabaseUrl supabaseKey of
                           (Inr reply, tr) \<Rightarrow> (reply, tr)
                         | (Inl e, tr) \<Rightarrow>
                             (\<lparr>code = 500, headers = [],
                               body = JObj [(''error'', JStr ''Cron failed''),
                                            (''message'', JStr (message e)),
                                            (''causeCode'', json_opt (cause_code e) JUndefined)]\<rparr>,
                              tr))
                    | _ \<Rightarrow>
                        (\<lparr>code = 500, headers = [],
                          body = JObj [(''error'', JStr ''SUPABASE_URL or SUPABASE_KEY is not set'')]\<rparr>,
                         [])))))"

section \<open>The aggregation layer (src/lib/useGarageStatus.ts)\<close>

record garage_status_state =
  rows :: "garage_row list"
  isLoading :: bool
  error :: "string option"
  refreshedAt :: "string option"

record client_config =
  supabaseEnvError :: "string option"
  supabase :: bool                      \<comment> \<open>whether the client is not \<open>null\<close>\<close>

record query_result =
  data :: "garage_row list option"      \<comment> \<open>\<open>None\<close> is \<open>null\<close>\<close>
  query_error :: "string option"        \<comment> \<open>\<open>error.message\<close> when \<open>error\<close> is set\<close>

definition fetchRows ::
  "client_config \<Rightarrow> query_result \<Rightarrow> string \<Rightarrow> garage_status_state \<Rightarrow> garage_status_state"
where
  \<comment> \<open>one refresh, from the state it starts in to the state it leaves: the store's answer
      and the time of the answer are inputs\<close>
  "fetchRows cfg res date st =
     (let st1 = st\<lparr>isLoading := True, error := None\<rparr> in
      if supabaseEnvError cfg \<noteq> None \<or> \<not> supabase cfg then
        st1\<lparr>isLoading := False,
            error := Some (case supabaseEnvError cfg of
                             Some m \<Rightarrow> m
                           | None \<Rightarrow> ''Supabase client not initialized'')\<rparr>
      else
        (case query_error res of
           Some m \<Rightarrow> st1\<lparr>isLoading := False, error := Some m\<rparr>
         | None \<Rightarrow>
             \<lparr>rows = (case data res of None \<Rightarrow> [] | Some d \<Rightarrow> d), isLoading = False,
              error = None, refreshedAt = Some date\<rparr>))"

definition latestByGarage :: "garage_row list \<Rightarrow> (string \<rightharpoonup> garage_row)" where
  "latestByGarage rs =
     foldl (\<lambda>m row. if m (garage row) = None then m(garage row \<mapsto> row) else m) Map.empty rs"

definition historyByGarage :: "garage_row list \<Rightarrow> (string \<rightharpoonup> garage_row list)" where
  "historyByGarage rs =
     foldl (\<lambda>m row. case m (garage row) of
                       Some arr \<Rightarrow> m(garage row \<mapsto> arr @ [row])
                     | None \<Rightarrow> m(garage row \<mapsto> [row])) Map.empty rs"

definition latestFetchedAt :: "garage_row list \<Rightarrow> string option" where
  "latestFetchedAt rs =
     (case rs of [] \<Rightarrow> None | r # _ \<Rightarrow> if fetched_at r = [] then None else Some (fetched_at r))"

section \<open>The daily averages (src/components/AreaChart.tsx)\<close>

text \<open>
  A day is the triple year, month, day that \<open>getDayKey\<close> prints as \<open>year-month-day\<close>
  and the chart splits again at the dashes; the year is not negative, so the split gives
  the triple back. The \<open>Date\<close> object of the runtime, with its time zone, is a parameter:
  \<open>localDay\<close> is \<open>new Date(s)\<close> read with \<open>getFullYear\<close>, \<open>getMonth\<close> and
  \<open>getDate\<close> (\<open>None\<close> for an invalid date), \<open>midnight\<close> is
  \<open>new Date(year, month, day).getTime()\<close>, \<open>label\<close> is \<open>formatDate\<close> of that date.
\<close>

type_synonym day = "nat \<times> nat \<times> nat"

record date_runtime =
  localDay :: "string \<Rightarrow> day option"
  midnight :: "day \<Rightarrow> int"
  label :: "day \<Rightarrow> string"

record daily_data =
  date :: string
  averages :: "(string \<times> int) list"    \<comment> \<open>the other keys of the data point, in order\<close>

definition math_round_div :: "int \<Rightarrow> nat \<Rightarrow> int" where
  \<comment> \<open>\<open>Math.round(a / n)\<close> for whole \<open>a\<close> and \<open>n > 0\<close>: the nearest integer, a half
      rounded up\<close>
  "math_round_div a n = (2 * a + int n) div (2 * int n)"

definition visit_row ::
  "date_runtime \<Rightarrow> garage_row \<Rightarrow> (day \<times> (string \<times> int list) list) list
     \<Rightarrow> (day \<times> (string \<times> int list) list) list"
where
  \<comment> \<open>the body of the first \<open>for\<close> loop; a \<open>Map\<close> is an association list in
      insertion order, and \<open>continue\<close> leaves it as it is\<close>
  "visit_row rt row dayMap =
     (if fetched_at row = [] then dayMap
      else
        (case localDay rt (fetched_at row) of
           None \<Rightarrow> dayMap
         | Some dayKey \<Rightarrow>
             (let dayMap1 = (if map_of dayMap dayKey = None then AList.update dayKey [] dayMap
                             else dayMap);
                  garageMap = (case map_of dayMap1 dayKey of None \<Rightarrow> [] | Some gm \<Rightarrow> gm);
                  garageMap1 = (if map_of garageMap (garage row) = None
                                then AList.update (garage row) [] garageMap else garageMap);
                  arr = (case map_of garageMap1 (garage row) of None \<Rightarrow> [] | Some a \<Rightarrow> a);
                  garageMap2 = AList.update (garage row) (arr @ [status row]) garageMap1
              in AList.update dayKey garageMap2 dayMap1)))"

fun group_rows ::
  "date_runtime \<Rightarrow> garage_row list \<Rightarrow> (day \<times> (string \<times> int list) list) list
     \<Rightarrow> (day \<times> (string \<times> int list) list) list"
where
  "group_rows rt [] dayMap = dayMap"
| "group_rows rt (row # rest) dayMap = group_rows rt rest (visit_row rt row dayMap)"

definition dailyData :: "date_runtime \<Rightarrow> garage_row list \<Rightarrow> daily_data list" where
  "dailyData rt rs =
     (if length rs = 0 then []
      else
        (let dayMap = group_rows rt rs [] in
         if length dayMap = 0 then []
         else
           (let sortedDays = sort_key (midnight rt) (map fst dayMap) in
            map (\<lambda>dayKey.
                   (let garageMap = (case map_of dayMap dayKey of None \<Rightarrow> [] | Some gm \<Rightarrow> gm) in
                    \<lparr>date = label rt dayKey,
                     averages =
                       map (\<lambda>g. (g, (let statuses = (case map_of garageMap g of
                                                        None \<Rightarrow> [] | Some a \<Rightarrow> a)
                                      in if 0 < length statuses
                                         then math_round_div (sum_list statuses) (length statuses)
                                         else 0)))
                           GARAGES\<rparr>))
                sortedDays)))"

section \<open>Runs, categories and example inputs\<close>

definition admitted :: "env \<Rightarrow> request \<Rightarrow> string \<Rightarrow> string \<Rightarrow> bool" where
  \<comment> \<open>the request passes the method, secret and credential checks of the handler and the
      store is configured, so that the run reaches the \<open>try\<close>\<close>
  "admitted ev req supabaseUrl supabaseKey \<longleftrightarrow>
     (req_method req = ''GET'' \<or> req_method req = ''HEAD'')
     \<and> (\<exists>secret. truthy (CRON_SECRET ev) = Some secret
            \<and> (authorization req = Some (''Bearer '' @ secret) \<or> getRequestToken req = Some secret))
     \<and> truthy (SUPABASE_URL ev) = Some supabaseUrl
     \<and> truthy (SUPABASE_KEY ev) = Some supabaseKey"

definition error_category :: "http_reply \<Rightarrow> json option" where
  \<comment> \<open>the \<open>error\<close> field of a reply, which names the kind of failure\<close>
  "error_category reply = (case body reply of JObj kvs \<Rightarrow> map_of kvs ''error'' | _ \<Rightarrow> None)"

definition tls_failure :: js_error where
  "tls_failure =
     \<lparr>err_name = ''TypeError'', message = ''fetch failed'',
      cause_code = Some ''DEPTH_ZERO_SELF_SIGNED_CERT''\<rparr>"

definition refused_failure :: js_error where
  "refused_failure =
     \<lparr>err_name = ''TypeError'', message = ''fetch failed'', cause_code = Some ''ECONNREFUSED''\<rparr>"

definition example_page :: string where
  "example_page = ''<p>South Garage <b>45%</b></p><p>North Garage <b>Full</b></p>''"

definition example_world :: "response attempt \<Rightarrow> unverified_attempt \<Rightarrow> world" where
  "example_world a b =
     \<lparr>page_fetch = a,
      page_fallback = b,
      store_post = \<lparr>latency = 50,
                    settles = Inr \<lparr>resp_ok = True, resp_status = 201, resp_text = Inr []\<rparr>\<rparr>,
      now = ''2024-01-01T10:00:00.000Z''\<rparr>"

definition quick_fallback :: unverified_attempt where
  "quick_fallback = \<lparr>idle = 80, outcome = Inr (Some 200, example_page)\<rparr>"

definition example_env :: env where
  "example_env =
     \<lparr>CRON_SECRET = Some ''s3cret'', SUPABASE_URL = Some ''https://db.example/'',
      SUPABASE_KEY = Some ''key''\<rparr>"

definition example_request :: request where
  "example_request =
     \<lparr>req_method = ''GET'', authorization = Some ''Bearer s3cret'', query_token = NoToken\<rparr>"

definition utc_stamp :: "string \<Rightarrow> nat" where
  \<comment> \<open>the digits of a time stamp read as one number: it orders ISO-8601 UTC time stamps
      of one format by time\<close>
  "utc_stamp s = digits_value (filter is_digit s)"

definition rowA50 :: garage_row where
  "rowA50 =
     \<lparr>fetched_at = ''2024-01-01T10:00:00Z'', last_updated = None, garage = ''A'',
      status = 50, source_url = []\<rparr>"

definition rowA70 :: garage_row where
  "rowA70 =
     \<lparr>fetched_at = ''2024-01-01T14:00:00Z'', last_updated = None, garage = ''A'',
      status = 70, source_url = []\<rparr>"

definition rowB100 :: garage_row where
  "rowB100 =
     \<lparr>fetched_at = ''2024-01-01T12:00:00Z'', last_updated = None, garage = ''B'',
      status = 100, source_url = []\<rparr>"

definition example_listed :: "garage_row list" where
  \<comment> \<open>the example records in the order the specification lists them\<close>
  "example_listed = [rowA50, rowA70, rowB100]"

definition example_descending :: "garage_row list" where
  \<comment> \<open>the example records, latest first\<close>
  "example_descending = [rowA70, rowB100, rowA50]"



section \<open>Vocabulary of the proofs\<close>

text \<open>
  What the matcher does on the patterns of the program is stated with these functions:
  a literal at the head of a string, the first occurrence of a literal, the first result
  of a backtracking search; and what the text normalizer leaves behind: no tag, no
  entity, white space only as single inner spaces.
\<close>

fun starts_with :: "bool \<Rightarrow> string \<Rightarrow> string \<Rightarrow> bool" where
  "starts_with ci [] s = True"
| "starts_with ci (a # p) [] = False"
| "starts_with ci (a # p) (c # s) = (atom_ok ci (Lit a) c \<and> starts_with ci p s)"

fun find_after :: "bool \<Rightarrow> string \<Rightarrow> string \<Rightarrow> string option" where
  "find_after ci p [] = (if starts_with ci p [] then Some [] else None)"
| "find_after ci p (c # cs) =
     (if starts_with ci p (c # cs) then Some (drop (length p) (c # cs)) else find_after ci p cs)"

definition first_of :: "'a list \<Rightarrow> 'a option" where
  "first_of xs = (case xs of [] \<Rightarrow> None | x # _ \<Rightarrow> Some x)"

definition progressing :: "bool \<Rightarrow> regex \<Rightarrow> bool" where
  "progressing ci r \<longleftrightarrow>
     (\<forall>s rest cap. exec_at ci r s = Some (rest, cap) \<longrightarrow> length rest < length s \<and> suffix rest s)"

fun tag_at :: "string \<Rightarrow> bool" where
  "tag_at (c # d # ds) = (c = CHR ''<'' \<and> d \<noteq> CHR ''>'' \<and> CHR ''>'' \<in> set ds)"
| "tag_at s = False"

fun tagless :: "string \<Rightarrow> bool" where
  "tagless [] = True"
| "tagless (c # cs) = (\<not> tag_at (c # cs) \<and> tagless cs)"

fun entity_free :: "string \<Rightarrow> bool" where
  "entity_free [] = True"
| "entity_free (c # cs) = (\<not> prefix ''&nbsp;'' (c # cs) \<and> entity_free cs)"

fun single_spaced :: "string \<Rightarrow> bool" where
  "single_spaced [] = True"
| "single_spaced (c # cs) =
     ((is_space c \<longrightarrow> c = CHR '' '' \<and> (case cs of [] \<Rightarrow> True | d # ds \<Rightarrow> \<not> is_space d))
      \<and> single_spaced cs)"

definition trimmed :: "string \<Rightarrow> bool" where
  "trimmed s \<longleftrightarrow> s = [] \<or> (\<not> is_space (hd s) \<and> \<not> is_space (last s))"



definition day_of :: "date_runtime \<Rightarrow> garage_row \<Rightarrow> day option" where
  \<comment> \<open>the local calendar day of a record, \<open>None\<close> for a record the loop passes over\<close>
  "day_of rt r = (if fetched_at r = [] then None else localDay rt (fetched_at r))"

definition readings :: "date_runtime \<Rightarrow> garage_row list \<Rightarrow> day \<Rightarrow> string \<Rightarrow> int list" where
  \<comment> \<open>the group of a day and a garage: the status values of its records, in order\<close>
  "readings rt rs d g = map status (filter (\<lambda>r. day_of rt r = Some d \<and> garage r = g) rs)"

definition mean_rounded :: "int list \<Rightarrow> int" where
  \<comment> \<open>the arithmetic mean rounded to the nearest integer, 0 for no value\<close>
  "mean_rounded xs = (if xs = [] then 0 else math_round_div (sum_list xs) (length xs))"

fun firsts :: "'a list \<Rightarrow> 'a list \<Rightarrow> 'a list" where
  \<comment> \<open>the elements of a list that are not in \<open>seen\<close>, each once, in the order of their
      first occurrence\<close>
  "firsts seen [] = []"
| "firsts seen (x # xs) = (if x \<in> set seen then firsts seen xs else x # firsts (x # seen) xs)"

definition days_seen :: "date_runtime \<Rightarrow> garage_row list \<Rightarrow> day list" where
  "days_seen rt rs = firsts [] (List.map_filter (day_of rt) rs)"

definition lookup2 :: "(day \<times> (string \<times> int list) list) list \<Rightarrow> day \<Rightarrow> string \<Rightarrow> int list" where
  "lookup2 dm d g =
     (case map_of (case map_of dm d of None \<Rightarrow> [] | Some gm \<Rightarrow> gm) g of
        None \<Rightarrow> [] | Some a \<Rightarrow> a)"



definition example_runtime :: date_runtime where
  \<comment> \<open>a runtime in the UTC time zone and an English locale, on time stamps
      \<open>YYYY-MM-DDThh:mm:ssZ\<close>; months count from 0, as \<open>getMonth\<close> does\<close>
  "example_runtime =
     \<lparr>localDay = (\<lambda>s. if length s < 10 then None
                       else Some (digits_value (take 4 s),
                                  digits_value (take 2 (drop 5 s)) - 1,
                                  digits_value (take 2 (drop 8 s)))),
      midnight = (\<lambda>(y, m, d). int ((y * 12 + m) * 31 + d)),
      label = (\<lambda>(y, m, d).
                 take 3 (drop (3 * m) ''JanFebMarAprMayJunJulAugSepOctNovDec'') @ '' '' @
                 (if d < 10 then [] else take 1 (drop (d div 10) ''0123456789'')) @
                 take 1 (drop (d mod 10) ''0123456789''))\<rparr>"

definition known_row :: "string \<Rightarrow> string \<Rightarrow> int \<Rightarrow> garage_row" where
  "known_row t g s =
     \<lparr>fetched_at = t, last_updated = None, garage = g, status = s, source_url = []\<rparr>"

definition example_known :: "garage_row list" where
  \<comment> \<open>the example records with two known garages for A and B, and a reading of the next
      day before them, latest first\<close>
  "example_known =
     [known_row ''2024-01-02T09:00:00Z'' ''North Garage'' 80,
      known_row ''2024-01-01T14:00:00Z'' ''South Garage'' 70,
      known_row ''2024-01-01T12:00:00Z'' ''North Garage'' 100,
      known_row ''2024-01-01T10:00:00Z'' ''South Garage'' 50]"

section \<open>The matcher on the patterns of the program\<close>

declare rmatch.simps [simp del]

lemmas rmatch_basic = rmatch.simps(1,2,3,4,7)

lemma first_of_simps [simp]:
  "first_of [] = None"
  "first_of (x # xs) = Some x"
  "first_of (xs @ ys) = (case first_of xs of Some x \<Rightarrow> Some x | None \<Rightarrow> first_of ys)"
  by (auto simp: first_of_def split: list.splits)

lemma exec_at_first: "exec_at ci r s = first_of (rmatch ci r (s, None))"
  by (simp add: exec_at_def first_of_def)

lemma Str_simps:
  "Str [] = Eps"
  "Str (a # p) = Seq (Atom (Lit a)) (Str p)"
  by (simp_all add: Str_def)

lemma starts_with_False: "starts_with False p s = prefix p s"
proof (induction p arbitrary: s)
  case Nil
  show ?case by simp
next
  case (Cons a p)
  then show ?case by (cases s) auto
qed

lemma starts_with_length: "starts_with ci p s \<Longrightarrow> length p \<le> length s"
  by (induction ci p s rule: starts_with.induct) auto

lemma rmatch_Str:
  "rmatch ci (Str p) (s, cap) = (if starts_with ci p s then [(drop (length p) s, cap)] else [])"
proof (induction p arbitrary: s)
  case Nil
  then show ?case by (simp add: Str_simps rmatch_basic)
next
  case (Cons a p)
  then show ?case by (cases s) (auto simp: Str_simps rmatch_basic)
qed

lemma concat_map_rmatch_Seq:
  "concat (map (rmatch ci c) (concat (map (rmatch ci b) xs))) =
   concat (map (rmatch ci (Seq b c)) xs)"
  by (induction xs) (auto simp: rmatch_basic)

lemma rmatch_Seq_assoc:
  "rmatch ci (Seq (Seq a b) c) st = rmatch ci (Seq a (Seq b c)) st"
  by (simp add: rmatch.simps(3) concat_map_rmatch_Seq)

lemma rmatch_Star_Atom:
  "rmatch ci (Star (Atom a)) (s, cap) =
     (case s of
        [] \<Rightarrow> [(s, cap)]
      | c # cs \<Rightarrow> if atom_ok ci a c then rmatch ci (Star (Atom a)) (cs, cap) @ [(s, cap)]
                  else [(s, cap)])"
  by (subst rmatch.simps(5)) (auto simp: rmatch_basic split: list.splits)

lemma rmatch_LazyStar_Atom:
  "rmatch ci (LazyStar (Atom a)) (s, cap) =
     (s, cap) #
     (case s of
        [] \<Rightarrow> []
      | c # cs \<Rightarrow> if atom_ok ci a c then rmatch ci (LazyStar (Atom a)) (cs, cap) else [])"
  by (subst rmatch.simps(6)) (auto simp: rmatch_basic split: list.splits)

lemma star_commit:
  assumes "\<forall>c s' cap. atom_ok ci a c \<longrightarrow> rmatch ci r2 (c # s', cap) = []"
  shows "rmatch ci (Seq (Star (Atom a)) r2) (s, cap) =
           rmatch ci r2 (dropWhile (atom_ok ci a) s, cap)"
proof (induction s)
  case Nil
  show ?case by (simp add: rmatch.simps(3) rmatch_Star_Atom)
next
  case (Cons c cs)
  show ?case
  proof (cases "atom_ok ci a c")
    case True
    have "rmatch ci (Seq (Star (Atom a)) r2) (c # cs, cap) =
          rmatch ci (Seq (Star (Atom a)) r2) (cs, cap) @ rmatch ci r2 (c # cs, cap)"
      by (simp add: rmatch.simps(3) rmatch_Star_Atom [of ci a "c # cs"] True)
    with Cons assms True show ?thesis by simp
  next
    case False
    then show ?thesis by (simp add: rmatch.simps(3) rmatch_Star_Atom [of ci a "c # cs"])
  qed
qed

lemma plus_commit:
  assumes "\<forall>c s' cap. atom_ok ci a c \<longrightarrow> rmatch ci r2 (c # s', cap) = []"
  shows "rmatch ci (Seq (Plus (Atom a)) r2) (s, cap) =
           (case s of
              [] \<Rightarrow> []
            | c # cs \<Rightarrow> if atom_ok ci a c then rmatch ci r2 (dropWhile (atom_ok ci a) cs, cap)
                        else [])"
proof -
  have "rmatch ci (Seq (Plus (Atom a)) r2) (s, cap) =
        rmatch ci (Seq (Atom a) (Seq (Star (Atom a)) r2)) (s, cap)"
    unfolding Plus_def by (rule rmatch_Seq_assoc)
  also have "\<dots> = (case s of
              [] \<Rightarrow> []
            | c # cs \<Rightarrow> if atom_ok ci a c then rmatch ci (Seq (Star (Atom a)) r2) (cs, cap)
                        else [])"
    by (cases s) (auto simp: rmatch.simps(3) [of ci "Atom a"] rmatch.simps(1))
  finally show ?thesis by (simp add: star_commit [OF assms] split: list.splits)
qed

lemma star_first:
  "first_of (rmatch ci (Star (Atom a)) (s, cap)) = Some (dropWhile (atom_ok ci a) s, cap)"
proof (induction s)
  case Nil
  show ?case by (simp add: rmatch_Star_Atom)
next
  case (Cons c cs)
  then show ?case by (simp add: rmatch_Star_Atom [of ci a "c # cs"])
qed

lemma first_of_concat_map:
  "first_of xs = Some x \<Longrightarrow> first_of (f x) = Some y \<Longrightarrow> first_of (concat (map f xs)) = Some y"
  by (cases xs) auto

lemma lazy_step:
  "rmatch ci (Seq (LazyStar (Atom a)) r2) (s, cap) =
     rmatch ci r2 (s, cap) @
     (case s of
        [] \<Rightarrow> []
      | c # cs \<Rightarrow> if atom_ok ci a c then rmatch ci (Seq (LazyStar (Atom a)) r2) (cs, cap)
                  else [])"
  by (simp add: rmatch.simps(3) rmatch_LazyStar_Atom [of ci a s] split: list.splits)

lemma lazy_any_then_str:
  "first_of (rmatch ci (Seq (LazyStar (Atom AnyChar)) (Str p)) (s, cap)) =
     map_option (\<lambda>r. (r, cap)) (find_after ci p s)"
proof (induction s)
  case Nil
  show ?case by (subst lazy_step) (simp add: rmatch_Str)
next
  case (Cons c cs)
  show ?case by (subst lazy_step) (simp add: rmatch_Str Cons rmatch_basic(1))
qed

lemma exec_at_block:
  "exec_at ci (Seq (Str p) (Seq (LazyStar (Atom AnyChar)) (Str q))) s =
     (if starts_with ci p s
      then map_option (\<lambda>r. (r, None)) (find_after ci q (drop (length p) s))
      else None)"
  by (simp add: exec_at_first rmatch.simps(3) [of ci "Str p"] rmatch_Str lazy_any_then_str)

lemma exec_at_nbsp:
  "exec_at False nbsp_entity s = (if prefix ''&nbsp;'' s then Some (drop 6 s, None) else None)"
  by (simp add: exec_at_first nbsp_entity_def rmatch_Str starts_with_False eval_nat_numeral)

lemma exec_at_spaces:
  "exec_at False spaces s =
     (case s of
        [] \<Rightarrow> None
      | c # cs \<Rightarrow> if is_space c then Some (dropWhile is_space cs, None) else None)"
proof (cases s)
  case Nil
  then show ?thesis by (simp add: exec_at_first spaces_def Plus_def rmatch_basic)
next
  case (Cons c cs)
  have "atom_ok False Space = is_space" by (auto simp: fun_eq_iff)
  with star_first [of False Space cs None] Cons show ?thesis
    by (auto simp: exec_at_first spaces_def Plus_def rmatch_basic)
qed

lemma dropWhile_neq_cases:
  "dropWhile (\<lambda>x. x \<noteq> a) xs = [] \<or> (\<exists>r. dropWhile (\<lambda>x. x \<noteq> a) xs = a # r)"
  by (induction xs) auto

lemma exec_at_any_tag:
  "exec_at False any_tag s =
     (case s of
        c # d # ds \<Rightarrow>
          if c = CHR ''<'' \<and> d \<noteq> CHR ''>''
          then (case dropWhile (\<lambda>x. x \<noteq> CHR ''>'') ds of
                  [] \<Rightarrow> None
                | _ # r \<Rightarrow> Some (r, None))
          else None
      | _ \<Rightarrow> None)"
proof -
  have ok: "atom_ok False (NoneOf ''>'') = (\<lambda>x. x \<noteq> CHR ''>'')" by (auto simp: fun_eq_iff)
  have c: "\<forall>c s' cap. atom_ok False (NoneOf ''>'') c \<longrightarrow>
             rmatch False (Atom (Lit CHR ''>'')) (c # s', cap) = []"
    by (auto simp: rmatch_basic)
  have "rmatch False any_tag (s, None) =
        (case s of
           [] \<Rightarrow> []
         | c # cs \<Rightarrow> if c = CHR ''<''
                     then rmatch False (Seq (Plus (Atom (NoneOf ''>''))) (Atom (Lit CHR ''>''))) (cs, None)
                     else [])"
    unfolding any_tag_def
    by (cases s) (auto simp: rmatch.simps(3) [of False "Atom (Lit CHR ''<'')"] rmatch.simps(1))
  then have r: "rmatch False any_tag (s, None) =
        (case s of
           [] \<Rightarrow> []
         | c # cs \<Rightarrow> if c = CHR ''<''
                     then (case cs of
                             [] \<Rightarrow> []
                           | d # ds \<Rightarrow> if d \<noteq> CHR ''>''
                                       then rmatch False (Atom (Lit CHR ''>''))
                                              (dropWhile (\<lambda>x. x \<noteq> CHR ''>'') ds, None)
                                       else [])
                     else [])"
  proof -
    have r2: "rmatch False (Seq (Plus (Atom (NoneOf ''>''))) (Atom (Lit CHR ''>''))) (cs, None) =
              (case cs of
                 [] \<Rightarrow> []
               | d # ds \<Rightarrow> if d \<noteq> CHR ''>''
                           then rmatch False (Atom (Lit CHR ''>''))
                                  (dropWhile (\<lambda>x. x \<noteq> CHR ''>'') ds, None)
                           else [])" for cs
      by (cases cs)
         (simp_all add: plus_commit [OF c] ok)
    assume "rmatch False any_tag (s, None) =
        (case s of
           [] \<Rightarrow> []
         | c # cs \<Rightarrow> if c = CHR ''<''
                     then rmatch False (Seq (Plus (Atom (NoneOf ''>''))) (Atom (Lit CHR ''>''))) (cs, None)
                     else [])"
    then show ?thesis by (cases s) (simp_all add: r2)
  qed
  show ?thesis
  proof (cases s)
    case Nil
    with r show ?thesis by (simp add: exec_at_first)
  next
    case (Cons c cs)
    note s = this
    show ?thesis
    proof (cases cs)
      case Nil
      with r s show ?thesis by (simp add: exec_at_first)
    next
      case (Cons d ds)
      from r s Cons have r': "rmatch False any_tag (c # d # ds, None) =
          (if c = CHR ''<'' \<and> d \<noteq> CHR ''>''
           then rmatch False (Atom (Lit CHR ''>'')) (dropWhile (\<lambda>x. x \<noteq> CHR ''>'') ds, None)
           else [])"
        by simp
      from dropWhile_neq_cases [of "CHR ''>''" ds] show ?thesis
      proof
        assume e: "dropWhile (\<lambda>x. x \<noteq> CHR ''>'') ds = []"
        show ?thesis by (simp add: exec_at_first r' e s Cons rmatch_basic(1))
      next
        assume "\<exists>r. dropWhile (\<lambda>x. x \<noteq> CHR ''>'') ds = CHR ''>'' # r"
        then obtain r0 where e: "dropWhile (\<lambda>x. x \<noteq> CHR ''>'') ds = CHR ''>'' # r0" by blast
        show ?thesis by (simp add: exec_at_first r' e s Cons rmatch_basic(1))
      qed
    qed
  qed
qed

subsection \<open>find_after, progress\<close>

lemma find_after_suffix: "find_after ci q t = Some r \<Longrightarrow> suffix r t"
  by (induction t) (auto simp: suffix_drop suffix_ConsI split: if_splits)

lemma replace_all_unfold:
  assumes "progressing ci r"
  shows "replace_all ci r rep s =
           (case exec_at ci r s of
              Some (rest, cap) \<Rightarrow> rep @ replace_all ci r rep rest
            | None \<Rightarrow> (case s of [] \<Rightarrow> [] | c # cs \<Rightarrow> c # replace_all ci r rep cs))"
  by (subst replace_all.simps) (use assms in \<open>auto simp: progressing_def split: option.splits\<close>)

lemma replace_all_hit:
  "progressing ci r \<Longrightarrow> exec_at ci r s = Some (rest, cap) \<Longrightarrow>
     replace_all ci r rep s = rep @ replace_all ci r rep rest"
  by (subst replace_all_unfold) auto

lemma replace_all_miss:
  "progressing ci r \<Longrightarrow> exec_at ci r (c # cs) = None \<Longrightarrow>
     replace_all ci r rep (c # cs) = c # replace_all ci r rep cs"
  by (subst replace_all_unfold) auto

lemma replace_all_Nil:
  assumes "progressing ci r"
  shows "replace_all ci r rep [] = []"
proof -
  have "exec_at ci r [] = None"
  proof (cases "exec_at ci r []")
    case (Some a)
    obtain rest cap where "a = (rest, cap)" by (cases a)
    with Some assms have "length rest < length ([] :: string)"
      unfolding progressing_def by blast
    then show ?thesis by simp
  qed simp
  then show ?thesis by (subst replace_all_unfold [OF assms]) simp
qed

lemma replace_all_induct [consumes 1, case_names Nil hit miss]:
  assumes "progressing ci r"
    and "P []"
    and "\<And>s rest cap. exec_at ci r s = Some (rest, cap) \<Longrightarrow> length rest < length s \<Longrightarrow>
           suffix rest s \<Longrightarrow> P rest \<Longrightarrow> P s"
    and "\<And>c cs. exec_at ci r (c # cs) = None \<Longrightarrow> P cs \<Longrightarrow> P (c # cs)"
  shows "P s"
proof (induction s rule: length_induct)
  case (1 s)
  show ?case
  proof (cases "exec_at ci r s")
    case None
    show ?thesis
    proof (cases s)
      case Nil
      then show ?thesis using assms(2) by simp
    next
      case (Cons c cs)
      with None 1 assms(4) show ?thesis by auto
    qed
  next
    case (Some a)
    obtain rest cap where a: "a = (rest, cap)" by (cases a)
    with Some assms(1) have l: "length rest < length s" and sf: "suffix rest s"
      by (auto simp: progressing_def)
    with 1 have "P rest" by blast
    with assms(3) Some a l sf show ?thesis by blast
  qed
qed

lemma progressing_nbsp: "progressing False nbsp_entity"
  by (auto simp: progressing_def exec_at_nbsp suffix_drop prefix_def split: if_splits)

lemma progressing_spaces: "progressing False spaces"
proof -
  have "length (dropWhile is_space cs) < Suc (length cs)" for cs
    using length_dropWhile_le [of is_space cs] by simp
  then show ?thesis
    by (auto simp: progressing_def exec_at_spaces suffix_dropWhile suffix_ConsI
        split: list.splits if_splits)
qed

lemma progressing_any_tag: "progressing False any_tag"
proof -
  have a: "length r < Suc (Suc (length ds))" "suffix r (c # d # ds)"
    if "dropWhile (\<lambda>x. x \<noteq> CHR ''>'') ds = x # r" for r ds x and c d :: char
  proof -
    have "suffix (x # r) ds" using suffix_dropWhile [of "\<lambda>x. x \<noteq> CHR ''>''" ds] that by simp
    then have s: "suffix r ds" by (rule suffix_ConsD)
    then show "suffix r (c # d # ds)" by (simp add: suffix_ConsI)
    from s have "length r \<le> length ds" by (rule suffix_length_le)
    then show "length r < Suc (Suc (length ds))" by simp
  qed
  show ?thesis
    by (auto simp: progressing_def exec_at_any_tag a split: list.splits if_splits)
qed

lemma progressing_block:
  assumes "p \<noteq> []"
  shows "progressing ci (Seq (Str p) (Seq (LazyStar (Atom AnyChar)) (Str q)))"
proof -
  have "length rest < length s \<and> suffix rest s"
    if "starts_with ci p s" "find_after ci q (drop (length p) s) = Some rest" for s rest
  proof -
    from that(2) have a: "suffix rest (drop (length p) s)" by (rule find_after_suffix)
    then have "suffix rest s" using suffix_drop suffix_order.trans by blast
    moreover from a have "length rest \<le> length (drop (length p) s)" by (rule suffix_length_le)
    moreover from that(1) have "length p \<le> length s" by (rule starts_with_length)
    ultimately show ?thesis using assms by (cases p) auto
  qed
  then show ?thesis
    by (auto simp: progressing_def exec_at_block split: if_splits)
qed

lemma progressing_script: "progressing True script_block"
  unfolding script_block_def by (rule progressing_block) simp

lemma progressing_style: "progressing True style_block"
  unfolding style_block_def by (rule progressing_block) simp

lemma set_replace_all:
  assumes "progressing ci r"
  shows "set (replace_all ci r rep s) \<subseteq> set s \<union> set rep"
  using assms
proof (induction s rule: replace_all_induct)
  case Nil
  then show ?case by (simp add: replace_all_Nil [OF assms])
next
  case (hit s rest cap)
  from hit(3) have "set rest \<subseteq> set s" by (rule set_mono_suffix)
  with hit show ?case by (auto simp: replace_all_hit [OF assms hit(1)])
next
  case (miss c cs)
  then show ?case by (auto simp: replace_all_miss [OF assms miss(1)])
qed

subsection \<open>Characters under the i flag\<close>

lemma canon_small: "canonicalize c = k \<Longrightarrow> k < 65 \<Longrightarrow> (of_char c :: nat) = k"
  by (auto simp: canonicalize_def Let_def split: if_splits)

lemma canon_gt: "canonicalize c = canonicalize CHR ''>'' \<longleftrightarrow> c = CHR ''>''"
proof
  assume a: "canonicalize c = canonicalize CHR ''>''"
  have "canonicalize CHR ''>'' = 62" by (simp add: canonicalize_def)
  with a have "(of_char c :: nat) = 62" using canon_small [of c 62] by simp
  then have "(of_char c :: nat) = of_char CHR ''>''" by simp
  then show "c = CHR ''>''" by (simp only: of_char_eq_iff)
qed simp

lemma canon_lt: "canonicalize CHR ''<'' = canonicalize c \<longleftrightarrow> c = CHR ''<''"
proof
  assume a: "canonicalize CHR ''<'' = canonicalize c"
  have "canonicalize CHR ''<'' = 60" by (simp add: canonicalize_def)
  with a have "(of_char c :: nat) = 60" using canon_small [of c 60] by simp
  then have "(of_char c :: nat) = of_char CHR ''<''" by simp
  then show "c = CHR ''<''" by (simp only: of_char_eq_iff)
qed simp

subsection \<open>No tag is left\<close>

lemma tag_at_iff:
  "tag_at (c # cs) \<longleftrightarrow>
     c = CHR ''<'' \<and> (\<exists>d ds. cs = d # ds \<and> d \<noteq> CHR ''>'' \<and> CHR ''>'' \<in> set ds)"
  by (cases cs) auto

lemma tag_at_append: "tag_at s \<Longrightarrow> tag_at (s @ w)"
  by (induction s rule: tag_at.induct) auto

lemma tagless_suffix: "suffix t s \<Longrightarrow> tagless s \<Longrightarrow> tagless t"
proof (induction s)
  case Nil
  then show ?case by simp
next
  case (Cons c cs)
  from Cons.prems(1) have "t = c # cs \<or> suffix t cs" by (auto simp: suffix_Cons)
  with Cons show ?case by auto
qed

lemma tagless_prefix: "tagless (u @ w) \<Longrightarrow> tagless u"
proof (induction u)
  case Nil
  show ?case by simp
next
  case (Cons c u)
  from Cons.prems have "\<not> tag_at (c # u @ w)" "tagless (u @ w)" by auto
  moreover have "tag_at (c # u) \<Longrightarrow> tag_at (c # u @ w)"
    using tag_at_append [of "c # u" w] by simp
  ultimately show ?case using Cons.IH by auto
qed

lemma not_tag_at_replace:
  assumes p: "progressing ci r"
    and g: "\<forall>x. exec_at ci r (CHR ''>'' # x) = None"
    and n: "\<not> tag_at (c # cs)"
  shows "\<not> tag_at (c # replace_all ci r '' '' cs)"
proof
  assume t: "tag_at (c # replace_all ci r '' '' cs)"
  then obtain d ds where r: "replace_all ci r '' '' cs = d # ds"
    and c: "c = CHR ''<''" and d: "d \<noteq> CHR ''>''" and m: "CHR ''>'' \<in> set ds"
    by (cases "replace_all ci r '' '' cs") auto
  show False
  proof (cases cs)
    case Nil
    with r show False by (simp add: replace_all_Nil [OF p])
  next
    case (Cons e es)
    show False
    proof (cases "e = CHR ''>''")
      case True
      with g Cons have "replace_all ci r '' '' cs = CHR ''>'' # replace_all ci r '' '' es"
        by (simp add: replace_all_miss [OF p])
      with r d show False by simp
    next
      case False
      with n c Cons have "CHR ''>'' \<notin> set es" by simp
      with False Cons have "CHR ''>'' \<notin> set cs" by simp
      moreover from m r have "CHR ''>'' \<in> set (replace_all ci r '' '' cs)" by simp
      ultimately show False using set_replace_all [OF p, of "'' ''" cs] by auto
    qed
  qed
qed

lemma exec_at_any_tag_None: "exec_at False any_tag s = None \<longleftrightarrow> \<not> tag_at s"
proof (cases s)
  case Nil
  then show ?thesis by (simp add: exec_at_any_tag)
next
  case (Cons c cs)
  note s = this
  show ?thesis
  proof (cases cs)
    case Nil
    with s show ?thesis by (simp add: exec_at_any_tag)
  next
    case (Cons d ds)
    have e: "(dropWhile (\<lambda>x. x \<noteq> CHR ''>'') ds = []) = (CHR ''>'' \<notin> set ds)"
      by (auto simp: dropWhile_eq_Nil_conv)
    from dropWhile_neq_cases [of "CHR ''>''" ds] show ?thesis
    proof
      assume d: "dropWhile (\<lambda>x. x \<noteq> CHR ''>'') ds = []"
      with e have "CHR ''>'' \<notin> set ds" by simp
      with d show ?thesis by (simp add: exec_at_any_tag s Cons del: dropWhile_eq_Nil_conv)
    next
      assume "\<exists>r. dropWhile (\<lambda>x. x \<noteq> CHR ''>'') ds = CHR ''>'' # r"
      then obtain r where d: "dropWhile (\<lambda>x. x \<noteq> CHR ''>'') ds = CHR ''>'' # r" by blast
      with e have "CHR ''>'' \<in> set ds" by auto
      with d show ?thesis by (simp add: exec_at_any_tag s Cons del: dropWhile_eq_Nil_conv)
    qed
  qed
qed

lemma gt_any_tag: "\<forall>x. exec_at False any_tag (CHR ''>'' # x) = None"
  by (simp add: exec_at_any_tag_None tag_at_iff)

lemma gt_nbsp: "\<forall>x. exec_at False nbsp_entity (CHR ''>'' # x) = None"
  by (simp add: exec_at_nbsp)

lemma gt_spaces: "\<forall>x. exec_at False spaces (CHR ''>'' # x) = None"
  by (simp add: exec_at_spaces is_space_def)

lemma tagless_replace_tags: "tagless (replace_all False any_tag '' '' s)"
  using progressing_any_tag
proof (induction s rule: replace_all_induct)
  case Nil
  show ?case by (simp add: replace_all_Nil [OF progressing_any_tag])
next
  case (hit s rest cap)
  then show ?case by (simp add: replace_all_hit [OF progressing_any_tag hit(1)] tag_at_iff)
next
  case (miss c cs)
  from miss(1) have "\<not> tag_at (c # cs)" by (simp add: exec_at_any_tag_None)
  from not_tag_at_replace [OF progressing_any_tag gt_any_tag this] miss
  show ?case by (simp add: replace_all_miss [OF progressing_any_tag miss(1)])
qed

lemma tagless_replace:
  assumes p: "progressing ci r" and g: "\<forall>x. exec_at ci r (CHR ''>'' # x) = None"
  shows "tagless s \<Longrightarrow> tagless (replace_all ci r '' '' s)"
  using p
proof (induction s rule: replace_all_induct)
  case Nil
  show ?case by (simp add: replace_all_Nil [OF p])
next
  case (hit s rest cap)
  from hit(3) hit(5) have "tagless rest" by (rule tagless_suffix)
  with hit show ?case by (simp add: replace_all_hit [OF p hit(1)] tag_at_iff)
next
  case (miss c cs)
  from miss(3) have "\<not> tag_at (c # cs)" "tagless cs" by auto
  with not_tag_at_replace [OF p g this(1)] miss
  show ?case by (simp add: replace_all_miss [OF p miss(1)])
qed

lemma trim_split: "\<exists>w. dropWhile is_space s = trim s @ w"
proof -
  let ?u = "dropWhile is_space s"
  have "rev ?u = takeWhile is_space (rev ?u) @ dropWhile is_space (rev ?u)" by simp
  then have "?u = rev (dropWhile is_space (rev ?u)) @ rev (takeWhile is_space (rev ?u))"
    by (metis rev_append rev_rev_ident)
  then show ?thesis unfolding trim_def by blast
qed

lemma tagless_trim: "tagless s \<Longrightarrow> tagless (trim s)"
proof -
  assume "tagless s"
  then have t: "tagless (dropWhile is_space s)"
    using suffix_dropWhile tagless_suffix by blast
  from trim_split [of s] obtain w where "dropWhile is_space s = trim s @ w" by blast
  with t have "tagless (trim s @ w)" by simp
  then show ?thesis by (rule tagless_prefix)
qed

lemma replace_tags_id: "tagless t \<Longrightarrow> replace_all False any_tag rep t = t"
proof (induction t)
  case Nil
  show ?case by (simp add: replace_all_Nil [OF progressing_any_tag])
next
  case (Cons c cs)
  then have "exec_at False any_tag (c # cs) = None" by (simp add: exec_at_any_tag_None)
  with Cons show ?case by (simp add: replace_all_miss [OF progressing_any_tag])
qed

lemma starts_with_last:
  "starts_with ci q s \<Longrightarrow> q \<noteq> [] \<Longrightarrow> \<exists>e\<in>set s. atom_ok ci (Lit (last q)) e"
  by (induction ci q s rule: starts_with.induct) auto

lemma find_after_last:
  "find_after ci q t = Some r \<Longrightarrow> q \<noteq> [] \<Longrightarrow> \<exists>e\<in>set t. atom_ok ci (Lit (last q)) e"
proof (induction t)
  case Nil
  then show ?case by (cases q) (auto split: if_splits)
next
  case (Cons c cs)
  show ?case
  proof (cases "starts_with ci q (c # cs)")
    case True
    from starts_with_last [OF True Cons.prems(2)] show ?thesis .
  next
    case False
    with Cons show ?thesis by auto
  qed
qed

lemma block_needs_tag:
  assumes "exec_at True (Seq (Str (CHR ''<'' # a # p)) (Seq (LazyStar (Atom AnyChar)) (Str q))) s
             = Some x"
    and "q \<noteq> []" and "last q = CHR ''>''"
    and "canonicalize a \<noteq> canonicalize CHR ''>''"
  shows "tag_at s"
proof -
  from assms(1) obtain rest where sw: "starts_with True (CHR ''<'' # a # p) s"
    and fa: "find_after True q (drop (length (CHR ''<'' # a # p)) s) = Some rest"
    by (auto simp: exec_at_block split: if_splits)
  from sw obtain c d ds where s: "s = c # d # ds"
    and c: "canonicalize CHR ''<'' = canonicalize c" and d: "canonicalize a = canonicalize d"
    by (cases s; cases "tl s") auto
  from c have c': "c = CHR ''<''" by (simp add: canon_lt)
  from d assms(4) have d': "d \<noteq> CHR ''>''" by auto
  from find_after_last [OF fa assms(2)] assms(3)
  obtain e where e: "e \<in> set (drop (length (CHR ''<'' # a # p)) s)"
    and "canonicalize CHR ''>'' = canonicalize e" by auto
  then have e': "e = CHR ''>''" by (metis canon_gt)
  from e s have "e \<in> set (drop (length p) ds)" by simp
  then have "e \<in> set ds" by (meson in_set_dropD)
  with s c' d' e' show ?thesis by simp
qed

lemma script_needs_tag: "exec_at True script_block s = Some x \<Longrightarrow> tag_at s"
  unfolding script_block_def
  by (rule block_needs_tag [of "CHR ''s''" "''cript''" "''</script>''"])
     (simp_all add: canonicalize_def)

lemma style_needs_tag: "exec_at True style_block s = Some x \<Longrightarrow> tag_at s"
  unfolding style_block_def
  by (rule block_needs_tag [of "CHR ''s''" "''tyle''" "''</style>''"])
     (simp_all add: canonicalize_def)

lemma replace_script_id: "tagless t \<Longrightarrow> replace_all True script_block rep t = t"
proof (induction t)
  case Nil
  show ?case by (simp add: replace_all_Nil [OF progressing_script])
next
  case (Cons c cs)
  then have "exec_at True script_block (c # cs) = None"
    using script_needs_tag [of "c # cs"] by (cases "exec_at True script_block (c # cs)") auto
  with Cons show ?case by (simp add: replace_all_miss [OF progressing_script])
qed

lemma replace_style_id: "tagless t \<Longrightarrow> replace_all True style_block rep t = t"
proof (induction t)
  case Nil
  show ?case by (simp add: replace_all_Nil [OF progressing_style])
next
  case (Cons c cs)
  then have "exec_at True style_block (c # cs) = None"
    using style_needs_tag [of "c # cs"] by (cases "exec_at True style_block (c # cs)") auto
  with Cons show ?case by (simp add: replace_all_miss [OF progressing_style])
qed

subsection \<open>No entity is left\<close>

lemma prefix_replace_all:
  assumes p: "progressing ci r"
  shows "prefix q (replace_all ci r '' '' s) \<Longrightarrow> CHR '' '' \<notin> set q \<Longrightarrow> prefix q s"
proof (induction q arbitrary: s)
  case Nil
  show ?case by simp
next
  case (Cons a q)
  show ?case
  proof (cases "exec_at ci r s")
    case (Some x)
    obtain rest cap where "x = (rest, cap)" by (cases x)
    with Some have "replace_all ci r '' '' s = CHR '' '' # replace_all ci r '' '' rest"
      by (simp add: replace_all_hit [OF p])
    with Cons.prems show ?thesis by simp
  next
    case None
    show ?thesis
    proof (cases s)
      case Nil
      with Cons.prems show ?thesis by (simp add: replace_all_Nil [OF p])
    next
      case (Cons c cs)
      with None have "replace_all ci r '' '' s = c # replace_all ci r '' '' cs"
        by (simp add: replace_all_miss [OF p])
      with Cons.prems Cons.IH [of cs] Cons show ?thesis by simp
    qed
  qed
qed

lemma entity_free_suffix: "suffix t s \<Longrightarrow> entity_free s \<Longrightarrow> entity_free t"
proof (induction s)
  case Nil
  then show ?case by simp
next
  case (Cons c cs)
  from Cons.prems(1) have "t = c # cs \<or> suffix t cs" by (auto simp: suffix_Cons)
  with Cons show ?case by auto
qed

lemma entity_free_prefix: "entity_free (u @ w) \<Longrightarrow> entity_free u"
proof (induction u)
  case Nil
  show ?case by simp
next
  case (Cons c u)
  have "prefix ''&nbsp;'' (c # u) \<Longrightarrow> prefix ''&nbsp;'' (c # u @ w)"
    using prefix_prefix [of "''&nbsp;''" "c # u" w] by simp
  with Cons show ?case by auto
qed

lemma not_entity_replace:
  assumes p: "progressing ci r" and n: "\<not> prefix ''&nbsp;'' (c # cs)"
  shows "\<not> prefix ''&nbsp;'' (c # replace_all ci r '' '' cs)"
proof
  assume "prefix ''&nbsp;'' (c # replace_all ci r '' '' cs)"
  then have c: "c = CHR ''&''" and "prefix ''nbsp;'' (replace_all ci r '' '' cs)" by auto
  from prefix_replace_all [OF p this(2)] have "prefix ''nbsp;'' cs" by simp
  with c n show False by simp
qed

lemma entity_free_replace_nbsp: "entity_free (replace_all False nbsp_entity '' '' s)"
  using progressing_nbsp
proof (induction s rule: replace_all_induct)
  case Nil
  show ?case by (simp add: replace_all_Nil [OF progressing_nbsp])
next
  case (hit s rest cap)
  then show ?case by (simp add: replace_all_hit [OF progressing_nbsp hit(1)])
next
  case (miss c cs)
  from miss(1) have "\<not> prefix ''&nbsp;'' (c # cs)" by (simp add: exec_at_nbsp split: if_splits)
  from not_entity_replace [OF progressing_nbsp this] miss
  show ?case by (simp add: replace_all_miss [OF progressing_nbsp miss(1)])
qed

lemma entity_free_replace:
  assumes p: "progressing ci r"
  shows "entity_free s \<Longrightarrow> entity_free (replace_all ci r '' '' s)"
  using p
proof (induction s rule: replace_all_induct)
  case Nil
  show ?case by (simp add: replace_all_Nil [OF p])
next
  case (hit s rest cap)
  from hit(3) hit(5) have "entity_free rest" by (rule entity_free_suffix)
  with hit show ?case by (simp add: replace_all_hit [OF p hit(1)])
next
  case (miss c cs)
  from miss(3) have "\<not> prefix ''&nbsp;'' (c # cs)" "entity_free cs" by auto
  with not_entity_replace [OF p this(1)] miss
  show ?case by (simp add: replace_all_miss [OF p miss(1)])
qed

lemma entity_free_trim: "entity_free s \<Longrightarrow> entity_free (trim s)"
proof -
  assume "entity_free s"
  then have t: "entity_free (dropWhile is_space s)"
    using suffix_dropWhile entity_free_suffix by blast
  from trim_split [of s] obtain w where "dropWhile is_space s = trim s @ w" by blast
  with t have "entity_free (trim s @ w)" by simp
  then show ?thesis by (rule entity_free_prefix)
qed

lemma replace_nbsp_id: "entity_free t \<Longrightarrow> replace_all False nbsp_entity rep t = t"
proof (induction t)
  case Nil
  show ?case by (simp add: replace_all_Nil [OF progressing_nbsp])
next
  case (Cons c cs)
  then have "exec_at False nbsp_entity (c # cs) = None" by (simp add: exec_at_nbsp)
  with Cons show ?case by (simp add: replace_all_miss [OF progressing_nbsp])
qed

subsection \<open>White space is single spaces\<close>

lemma single_spaced_suffix: "suffix t s \<Longrightarrow> single_spaced s \<Longrightarrow> single_spaced t"
proof (induction s)
  case Nil
  then show ?case by simp
next
  case (Cons c cs)
  from Cons.prems(1) have "t = c # cs \<or> suffix t cs" by (auto simp: suffix_Cons)
  with Cons show ?case by auto
qed

lemma single_spaced_prefix: "single_spaced (u @ w) \<Longrightarrow> single_spaced u"
proof (induction u)
  case Nil
  show ?case by simp
next
  case (Cons c u)
  then show ?case by (cases u) auto
qed

lemma replace_spaces_head:
  "\<not> is_space d \<Longrightarrow>
     replace_all False spaces '' '' (d # ds) = d # replace_all False spaces '' '' ds"
  by (simp add: replace_all_miss [OF progressing_spaces] exec_at_spaces)

lemma dropWhile_space_cases:
  "dropWhile is_space cs = [] \<or> (\<exists>d ds. dropWhile is_space cs = d # ds \<and> \<not> is_space d)"
  by (induction cs) auto

lemma single_spaced_replace: "single_spaced (replace_all False spaces '' '' s)"
  using progressing_spaces
proof (induction s rule: replace_all_induct)
  case Nil
  show ?case by (simp add: replace_all_Nil [OF progressing_spaces])
next
  case (hit s rest cap)
  from hit(1) obtain c cs where s: "s = c # cs" and r: "rest = dropWhile is_space cs"
    by (auto simp: exec_at_spaces split: list.splits if_splits)
  from dropWhile_space_cases [of cs]
  have "case replace_all False spaces '' '' rest of [] \<Rightarrow> True | d # ds \<Rightarrow> \<not> is_space d"
  proof
    assume "dropWhile is_space cs = []"
    with r show ?thesis by (simp add: replace_all_Nil [OF progressing_spaces])
  next
    assume "\<exists>d ds. dropWhile is_space cs = d # ds \<and> \<not> is_space d"
    then obtain d ds where "dropWhile is_space cs = d # ds" "\<not> is_space d" by blast
    with r show ?thesis by (simp add: replace_spaces_head)
  qed
  with hit show ?case by (simp add: replace_all_hit [OF progressing_spaces hit(1)])
next
  case (miss c cs)
  from miss(1) have "\<not> is_space c" by (simp add: exec_at_spaces split: if_splits)
  with miss show ?case by (simp add: replace_all_miss [OF progressing_spaces miss(1)])
qed

lemma single_spaced_trim: "single_spaced s \<Longrightarrow> single_spaced (trim s)"
proof -
  assume "single_spaced s"
  then have t: "single_spaced (dropWhile is_space s)"
    using suffix_dropWhile single_spaced_suffix by blast
  from trim_split [of s] obtain w where "dropWhile is_space s = trim s @ w" by blast
  with t have "single_spaced (trim s @ w)" by simp
  then show ?thesis by (rule single_spaced_prefix)
qed

lemma replace_spaces_id: "single_spaced t \<Longrightarrow> replace_all False spaces '' '' t = t"
proof (induction t)
  case Nil
  show ?case by (simp add: replace_all_Nil [OF progressing_spaces])
next
  case (Cons c cs)
  show ?case
  proof (cases "is_space c")
    case True
    with Cons.prems have c: "c = CHR '' ''" and n: "cs = [] \<or> \<not> is_space (hd cs)"
      by (auto split: list.splits)
    from n have "dropWhile is_space cs = cs" by (cases cs) auto
    with True have "exec_at False spaces (c # cs) = Some (cs, None)"
      by (simp add: exec_at_spaces)
    from replace_all_hit [OF progressing_spaces this] Cons c show ?thesis by simp
  next
    case False
    with Cons show ?thesis by (simp add: replace_spaces_head)
  qed
qed

subsection \<open>Trimming\<close>

lemma trimmed_trim: "trimmed (trim s)"
proof (cases "trim s = []")
  case True
  then show ?thesis by (simp add: trimmed_def)
next
  case False
  let ?u = "dropWhile is_space s"
  let ?v = "dropWhile is_space (rev ?u)"
  from False have v: "?v \<noteq> []" by (simp add: trim_def)
  then have "\<not> is_space (hd ?v)" by (rule hd_dropWhile)
  then have l: "\<not> is_space (last (trim s))" using v by (simp add: trim_def last_rev)
  from trim_split [of s] obtain w where w: "?u = trim s @ w" by blast
  with False have "?u \<noteq> []" by auto
  then have "\<not> is_space (hd ?u)" by (rule hd_dropWhile)
  with w False have "\<not> is_space (hd (trim s))" by (metis hd_append2)
  with l show ?thesis by (simp add: trimmed_def)
qed

lemma trim_id: "trimmed t \<Longrightarrow> trim t = t"
proof (cases t)
  case Nil
  then show ?thesis by (simp add: trim_def)
next
  case (Cons c cs)
  assume "trimmed t"
  with Cons have h: "\<not> is_space c" and l: "\<not> is_space (last t)" by (auto simp: trimmed_def)
  from h Cons have a: "dropWhile is_space t = t" by simp
  from Cons have "rev t \<noteq> []" by simp
  then obtain x xs where r: "rev t = x # xs" by (cases "rev t") auto
  with Cons have "x = last t" by (metis last_rev list.sel(1) rev_rev_ident hd_rev)
  with l have "\<not> is_space x" by simp
  then have "dropWhile is_space (x # xs) = x # xs" by simp
  then have "dropWhile is_space (rev t) = rev t" by (simp only: r)
  with a show ?thesis by (simp add: trim_def)
qed

subsection \<open>The normalizer is idempotent\<close>

lemma htmlToText_props:
  "tagless (htmlToText s)" "entity_free (htmlToText s)" "single_spaced (htmlToText s)"
  "trimmed (htmlToText s)"
proof -
  let ?a = "replace_all False any_tag '' ''
              (replace_all True style_block '' '' (replace_all True script_block '' '' s))"
  let ?b = "replace_all False nbsp_entity '' '' ?a"
  let ?c = "replace_all False spaces '' '' ?b"
  have h: "htmlToText s = trim ?c" by (simp add: htmlToText_def)
  have "tagless ?a" by (rule tagless_replace_tags)
  then have "tagless ?b" by (rule tagless_replace [OF progressing_nbsp gt_nbsp])
  then have "tagless ?c" by (rule tagless_replace [OF progressing_spaces gt_spaces])
  then show "tagless (htmlToText s)" unfolding h by (rule tagless_trim)
  have "entity_free ?b" by (rule entity_free_replace_nbsp)
  then have "entity_free ?c" by (rule entity_free_replace [OF progressing_spaces])
  then show "entity_free (htmlToText s)" unfolding h by (rule entity_free_trim)
  have "single_spaced ?c" by (rule single_spaced_replace)
  then show "single_spaced (htmlToText s)" unfolding h by (rule single_spaced_trim)
  show "trimmed (htmlToText s)" unfolding h by (rule trimmed_trim)
qed

text \<open>
  Claim C9. The text normalizer is idempotent: for every string, normalizing the
  normalized text returns it unchanged. (The normalizer is a total function: it is
  defined by terminating recursions, and no input is rejected.)
\<close>

theorem htmlToText_idempotent: "htmlToText (htmlToText s) = htmlToText s"
proof -
  let ?t = "htmlToText s"
  have "htmlToText ?t =
        trim (replace_all False spaces '' ''
          (replace_all False nbsp_entity '' ''
            (replace_all False any_tag '' ''
              (replace_all True style_block '' ''
                (replace_all True script_block '' '' ?t)))))"
    by (simp add: htmlToText_def [of ?t])
  also have "\<dots> = ?t"
    by (simp only: replace_script_id [OF htmlToText_props(1)]
        replace_style_id [OF htmlToText_props(1)]
        replace_tags_id [OF htmlToText_props(1)]
        replace_nbsp_id [OF htmlToText_props(2)]
        replace_spaces_id [OF htmlToText_props(3)]
        trim_id [OF htmlToText_props(4)])
  finally show ?thesis .
qed

theorem htmlToText_idempotent_witness:
  "htmlToText (htmlToText example_page) = htmlToText example_page"
  by (rule htmlToText_idempotent)

section \<open>The page fetcher: when the fallback is tried\<close>

text \<open>
  Claim C2. Whatever error the first request for the page raises, the fetcher tries the
  request that skips certificate verification exactly when the cause code of the error
  is one of the three codes of a certificate chain that cannot be verified; any other
  error is the result of the fetcher, unchanged, and no second request is made.
\<close>

theorem fallback_only_for_tls_codes:
  assumes "fetchWithTimeout 10000 (page_fetch w) = Inl e"
  shows "fetchGarageStatusPage w url =
           (if cause_code e \<in> {Some ''UNABLE_TO_VERIFY_LEAF_SIGNATURE'',
                                 Some ''DEPTH_ZERO_SELF_SIGNED_CERT'',
                                 Some ''SELF_SIGNED_CERT_IN_CHAIN''}
            then (https_get_unverified (page_fallback w), [FetchGet url, HttpsGetUnverified url])
            else (Inl e, [FetchGet url]))
         \<and> (HttpsGetUnverified url \<in> set (snd (fetchGarageStatusPage w url))
              \<longleftrightarrow> cause_code e \<in> {Some ''UNABLE_TO_VERIFY_LEAF_SIGNATURE'',
                                        Some ''DEPTH_ZERO_SELF_SIGNED_CERT'',
                                        Some ''SELF_SIGNED_CERT_IN_CHAIN''})"
  using assms
  by (cases "cause_code e") (auto simp: fetchGarageStatusPage_def tls_has_def tlsCodes_def)

theorem fallback_only_for_tls_codes_witness:
  "fetchGarageStatusPage
     (example_world \<lparr>latency = 30, settles = Inl tls_failure\<rparr> quick_fallback) sourceUrl =
     (Inr \<lparr>resp_ok = True, resp_status = 200, resp_text = Inr example_page\<rparr>,
      [FetchGet sourceUrl, HttpsGetUnverified sourceUrl])
   \<and> fetchGarageStatusPage
     (example_world \<lparr>latency = 30, settles = Inl refused_failure\<rparr> quick_fallback) sourceUrl =
     (Inl refused_failure, [FetchGet sourceUrl])"
proof -
  have a: "fetchWithTimeout 10000
             (page_fetch (example_world \<lparr>latency = 30, settles = Inl tls_failure\<rparr> quick_fallback))
           = Inl tls_failure"
    by (simp add: fetchWithTimeout_def example_world_def)
  have b: "fetchWithTimeout 10000
             (page_fetch (example_world \<lparr>latency = 30, settles = Inl refused_failure\<rparr> quick_fallback))
           = Inl refused_failure"
    by (simp add: fetchWithTimeout_def example_world_def)
  show ?thesis
    using fallback_only_for_tls_codes [OF a, of sourceUrl]
      fallback_only_for_tls_codes [OF b, of sourceUrl]
    by (simp add: tls_failure_def refused_failure_def example_world_def quick_fallback_def
        https_get_unverified_def)
qed

section \<open>The ingestion job: replies\<close>

lemma admitted_example: "admitted example_env example_request ''https://db.example/'' ''key''"
  by (simp add: admitted_def example_env_def example_request_def truthy_def)

lemma handler_admitted:
  assumes "admitted ev req supabaseUrl supabaseKey"
  shows "handler lu ev w req =
           (case try_body lu w supabaseUrl supabaseKey of
              (Inr reply, tr) \<Rightarrow> (reply, tr)
            | (Inl e, tr) \<Rightarrow>
                (\<lparr>code = 500, headers = [],
                  body = JObj [(''error'', JStr ''Cron failed''),
                               (''message'', JStr (message e)),
                               (''causeCode'', json_opt (cause_code e) JUndefined)]\<rparr>, tr))"
proof -
  from assms obtain secret where
    m: "req_method req = ''GET'' \<or> req_method req = ''HEAD''" and
    s: "truthy (CRON_SECRET ev) = Some secret" and
    a: "authorization req = Some (''Bearer '' @ secret) \<or> getRequestToken req = Some secret" and
    u: "truthy (SUPABASE_URL ev) = Some supabaseUrl" and
    k: "truthy (SUPABASE_KEY ev) = Some supabaseKey"
    unfolding admitted_def by blast
  have auth: "(case truthy (authorization req) of None \<Rightarrow> [] | Some a \<Rightarrow> a) = ''Bearer '' @ secret
              \<or> getRequestToken req = Some secret"
    using a by (auto simp: truthy_def)
  show ?thesis
    unfolding handler_def using m s auth u k by (auto simp: Let_def)
qed

text \<open>
  Claim C10, as amended. The job has no category of its own for a timeout. In every run
  that passes the method, secret and configuration checks and in which the request for
  the page is aborted at its 10 s budget, the run ends in the reply every exception of
  the \<open>try\<close> ends in: status 500, error \<open>Cron failed\<close>, with the message of the abort and
  no cause code; the request for the page is the only request the run has made.
\<close>

theorem page_timeout_is_cron_failed:
  assumes "admitted ev req supabaseUrl supabaseKey"
    and "10000 \<le> latency (page_fetch w)"
  shows "handler lu ev w req =
           (\<lparr>code = 500, headers = [],
             body = JObj [(''error'', JStr ''Cron failed''),
                          (''message'', JStr ''This operation was aborted''),
                          (''causeCode'', JUndefined)]\<rparr>,
            [FetchGet sourceUrl])
         \<and> error_category (fst (handler lu ev w req)) = Some (JStr ''Cron failed'')"
proof -
  from assms(2) have "fetchWithTimeout 10000 (page_fetch w) = Inl abort_error"
    by (simp add: fetchWithTimeout_def)
  then have "fetchGarageStatusPage w sourceUrl = (Inl abort_error, [FetchGet sourceUrl])"
    by (simp add: fetchGarageStatusPage_def abort_error_def tls_has_def)
  then have "try_body lu w supabaseUrl supabaseKey = (Inl abort_error, [FetchGet sourceUrl])"
    by (simp add: try_body_def)
  then have "handler lu ev w req =
              (\<lparr>code = 500, headers = [],
                body = JObj [(''error'', JStr ''Cron failed''),
                             (''message'', JStr ''This operation was aborted''),
                             (''causeCode'', JUndefined)]\<rparr>,
               [FetchGet sourceUrl])"
    by (simp add: handler_admitted [OF assms(1)] abort_error_def json_opt_def)
  then show ?thesis by (simp add: error_category_def)
qed

theorem page_timeout_is_cron_failed_witness:
  "handler (\<lambda>t. None) example_env
     (example_world \<lparr>latency = 10000, settles = Inl refused_failure\<rparr> quick_fallback)
     example_request =
     (\<lparr>code = 500, headers = [],
       body = JObj [(''error'', JStr ''Cron failed''),
                    (''message'', JStr ''This operation was aborted''),
                    (''causeCode'', JUndefined)]\<rparr>,
      [FetchGet sourceUrl])
   \<and> error_category (fst (handler (\<lambda>t. None) example_env
          (example_world
             \<lparr>latency = 15000,
              settles = Inr \<lparr>resp_ok = True, resp_status = 200, resp_text = Inr example_page\<rparr>\<rparr>
             quick_fallback)
          example_request))
       = Some (JStr ''Cron failed'')"
proof -
  have a: "10000 \<le> latency (page_fetch
      (example_world \<lparr>latency = 10000, settles = Inl refused_failure\<rparr> quick_fallback))"
    by (simp add: example_world_def)
  have b: "10000 \<le> latency (page_fetch
      (example_world
         \<lparr>latency = 15000,
          settles = Inr \<lparr>resp_ok = True, resp_status = 200, resp_text = Inr example_page\<rparr>\<rparr>
         quick_fallback))"
    by (simp add: example_world_def)
  from page_timeout_is_cron_failed [OF admitted_example a, of "\<lambda>t. None"]
    page_timeout_is_cron_failed [OF admitted_example b, of "\<lambda>t. None"]
  show ?thesis by blast
qed

theorem timeout_not_a_category_counterexample:
  "10000 \<le> latency (page_fetch
       (example_world \<lparr>latency = 12000, settles = Inl refused_failure\<rparr> quick_fallback))
   \<and> latency (page_fetch
       (example_world \<lparr>latency = 30, settles = Inl refused_failure\<rparr> quick_fallback)) < 10000
   \<and> error_category (fst (handler (\<lambda>t. None) example_env
          (example_world \<lparr>latency = 12000, settles = Inl refused_failure\<rparr> quick_fallback)
          example_request))
       = Some (JStr ''Cron failed'')
   \<and> error_category (fst (handler (\<lambda>t. None) example_env
          (example_world \<lparr>latency = 30, settles = Inl refused_failure\<rparr> quick_fallback)
          example_request))
       = Some (JStr ''Cron failed'')"
  by (simp add: handler_admitted [OF admitted_example] try_body_def fetchGarageStatusPage_def
      fetchWithTimeout_def example_world_def refused_failure_def abort_error_def tls_has_def
      tlsCodes_def error_category_def)

section \<open>The aggregation layer: the latest record of a garage\<close>

lemma latest_foldl:
  "foldl (\<lambda>m row. if m (garage row) = None then m(garage row \<mapsto> row) else m) m0 rs g =
     (case m0 g of Some r \<Rightarrow> Some r | None \<Rightarrow> List.find (\<lambda>r. garage r = g) rs)"
  by (induction rs arbitrary: m0) (auto split: option.splits)

lemma latestByGarage_find: "latestByGarage rs g = List.find (\<lambda>r. garage r = g) rs"
  by (simp add: latestByGarage_def latest_foldl)

lemma find_first_of_sorted:
  assumes "sorted_wrt R rs" and "List.find P rs = Some r" and "r' \<in> set rs" and "P r'"
  shows "r' = r \<or> R r r'"
  using assms
  by (induction rs) (auto split: if_splits)

lemma utc_stamps:
  "utc_stamp ''2024-01-01T10:00:00Z'' = 20240101100000"
  "utc_stamp ''2024-01-01T12:00:00Z'' = 20240101120000"
  "utc_stamp ''2024-01-01T14:00:00Z'' = 20240101140000"
  by (simp_all add: utc_stamp_def is_digit_def digits_value_def digit_value_def)

text \<open>
  Claim C5, as amended. For every list of records ordered by \<open>fetched_at\<close>, latest
  first, the derivation maps each garage of the list to the first record of the list
  with that garage, which is its most recent one, and maps no other garage. The example
  records of the specification are not listed latest first: in the order listed the
  derivation maps A to the record of status 50 and B to the record of status 100;
  latest first, it maps A to the record of status 70, the most recent of A, and B to the
  record of status 100.
\<close>

theorem latestByGarage_first_most_recent:
  fixes instant :: "string \<Rightarrow> 'a::linorder"
  assumes "sorted_wrt (\<lambda>a b. instant (fetched_at b) \<le> instant (fetched_at a)) rs"
  shows "latestByGarage rs g = List.find (\<lambda>r. garage r = g) rs
       \<and> dom (latestByGarage rs) = garage ` set rs
       \<and> (\<forall>r r'. latestByGarage rs g = Some r \<and> r' \<in> set rs \<and> garage r' = g
             \<longrightarrow> instant (fetched_at r') \<le> instant (fetched_at r))
       \<and> latestByGarage example_listed ''A'' = Some rowA50
       \<and> latestByGarage example_listed ''B'' = Some rowB100
       \<and> latestByGarage example_descending ''A'' = Some rowA70
       \<and> latestByGarage example_descending ''B'' = Some rowB100"
proof -
  have d: "dom (latestByGarage rs) = garage ` set rs"
  proof -
    have "\<And>g. (latestByGarage rs g \<noteq> None) = (g \<in> garage ` set rs)"
      by (auto simp: latestByGarage_find find_None_iff)
    then show ?thesis by (auto simp: dom_def)
  qed
  have m: "instant (fetched_at r') \<le> instant (fetched_at r)"
    if "latestByGarage rs g = Some r" "r' \<in> set rs" "garage r' = g" for r r'
    using find_first_of_sorted [OF assms, of "\<lambda>r. garage r = g" r r'] that
    by (auto simp: latestByGarage_find)
  have e: "latestByGarage example_listed ''A'' = Some rowA50"
          "latestByGarage example_listed ''B'' = Some rowB100"
          "latestByGarage example_descending ''A'' = Some rowA70"
          "latestByGarage example_descending ''B'' = Some rowB100"
    by (simp_all add: latestByGarage_find example_listed_def example_descending_def
        rowA50_def rowA70_def rowB100_def)
  show ?thesis using d m e by (simp add: latestByGarage_find)
qed

theorem latestByGarage_first_most_recent_witness:
  "sorted_wrt (\<lambda>a b. utc_stamp (fetched_at b) \<le> utc_stamp (fetched_at a)) example_descending
   \<and> latestByGarage example_descending ''A'' = List.find (\<lambda>r. garage r = ''A'') example_descending
   \<and> latestByGarage example_descending ''A'' = Some rowA70
   \<and> dom (latestByGarage example_descending) = {''A'', ''B''}"
proof -
  have s: "sorted_wrt (\<lambda>a b. utc_stamp (fetched_at b) \<le> utc_stamp (fetched_at a))
             example_descending"
    by (simp add: example_descending_def rowA50_def rowA70_def rowB100_def utc_stamps)
  have g: "garage ` set example_descending = {''A'', ''B''}"
    by (auto simp: example_descending_def rowA50_def rowA70_def rowB100_def)
  note t = latestByGarage_first_most_recent [OF s, of "''A''"]
  from t have a: "latestByGarage example_descending ''A'' =
      List.find (\<lambda>r. garage r = ''A'') example_descending" by (rule conjunct1)
  from t have b: "latestByGarage example_descending ''A'' = Some rowA70" by blast
  from t have "dom (latestByGarage example_descending) = garage ` set example_descending"
    by blast
  with g have c: "dom (latestByGarage example_descending) = {''A'', ''B''}" by simp
  show ?thesis using s a b c by blast
qed

theorem example_latest_counterexample:
  "sorted_wrt (\<lambda>a b. utc_stamp (fetched_at b) \<le> utc_stamp (fetched_at a)) example_descending
   \<and> set example_descending = set example_listed
   \<and> \<not> sorted_wrt (\<lambda>a b. utc_stamp (fetched_at b) \<le> utc_stamp (fetched_at a)) example_listed
   \<and> latestByGarage example_descending ''A'' \<noteq> Some rowA50
   \<and> status (the (latestByGarage example_descending ''A'')) = 70"
  by (auto simp: example_descending_def example_listed_def rowA50_def rowA70_def rowB100_def
      utc_stamps latestByGarage_find)

section \<open>The aggregation layer: a failed read\<close>

text \<open>
  Claim C6. Whatever state the aggregation layer is in, a refresh whose read of the store
  fails leaves the records as they were, and with them the three views derived from
  them, carries the message of the error and is not loading.
\<close>

theorem read_failure_keeps_rows:
  "fetchRows \<lparr>supabaseEnvError = None, supabase = True\<rparr> \<lparr>data = d, query_error = Some m\<rparr> t st
     = st\<lparr>isLoading := False, error := Some m\<rparr>
   \<and> rows (fetchRows \<lparr>supabaseEnvError = None, supabase = True\<rparr>
              \<lparr>data = d, query_error = Some m\<rparr> t st) = rows st
   \<and> latestByGarage (rows (fetchRows \<lparr>supabaseEnvError = None, supabase = True\<rparr>
              \<lparr>data = d, query_error = Some m\<rparr> t st)) = latestByGarage (rows st)
   \<and> historyByGarage (rows (fetchRows \<lparr>supabaseEnvError = None, supabase = True\<rparr>
              \<lparr>data = d, query_error = Some m\<rparr> t st)) = historyByGarage (rows st)
   \<and> latestFetchedAt (rows (fetchRows \<lparr>supabaseEnvError = None, supabase = True\<rparr>
              \<lparr>data = d, query_error = Some m\<rparr> t st)) = latestFetchedAt (rows st)
   \<and> error (fetchRows \<lparr>supabaseEnvError = None, supabase = True\<rparr>
              \<lparr>data = d, query_error = Some m\<rparr> t st) = Some m
   \<and> \<not> isLoading (fetchRows \<lparr>supabaseEnvError = None, supabase = True\<rparr>
              \<lparr>data = d, query_error = Some m\<rparr> t st)"
  by (simp add: fetchRows_def)

theorem read_failure_keeps_rows_witness:
  "fetchRows \<lparr>supabaseEnvError = None, supabase = True\<rparr>
      \<lparr>data = None, query_error = Some ''connection reset''\<rparr> ''2024-01-01T15:00:00Z''
      \<lparr>rows = example_descending, isLoading = False, error = None,
       refreshedAt = Some ''2024-01-01T14:59:00Z''\<rparr>
   = \<lparr>rows = example_descending, isLoading = False, error = Some ''connection reset'',
      refreshedAt = Some ''2024-01-01T14:59:00Z''\<rparr>"
  using read_failure_keeps_rows [of None "''connection reset''" "''2024-01-01T15:00:00Z''"
      "\<lparr>rows = example_descending, isLoading = False, error = None,
        refreshedAt = Some ''2024-01-01T14:59:00Z''\<rparr>"]
  by simp

section \<open>The status extractor: keys, and a worked example\<close>




















section \<open>The ingestion job: the batch of a run\<close>



section \<open>The text normalizer: script and style blocks\<close>





























section \<open>The daily averages: groups, means and order\<close>

lemma firsts_cong: "set a = set b \<Longrightarrow> firsts a xs = firsts b xs"
proof (induction xs arbitrary: a b)
  case Nil
  show ?case by simp
next
  case (Cons x xs)
  from Cons.prems have "set (x # a) = set (x # b)" by simp
  from Cons.IH [OF this] Cons.IH [OF Cons.prems] Cons.prems show ?case by simp
qed

lemma firsts_props: "distinct (firsts seen xs) \<and> set (firsts seen xs) = set xs - set seen"
proof (induction xs arbitrary: seen)
  case Nil
  show ?case by simp
next
  case (Cons x xs)
  from Cons.IH [of seen] Cons.IH [of "x # seen"] show ?case by auto
qed

lemma set_map_filter_Some: "set (List.map_filter f xs) = {y. \<exists>x\<in>set xs. f x = Some y}"
  by (induction xs) (auto simp: map_filter_simps split: option.splits)

lemma visit_row_keys:
  "map fst (visit_row rt row dm) =
     (case day_of rt row of
        None \<Rightarrow> map fst dm
      | Some d \<Rightarrow> if d \<in> set (map fst dm) then map fst dm else map fst dm @ [d])"
proof (cases "day_of rt row")
  case None
  then show ?thesis by (auto simp: visit_row_def day_of_def split: if_splits)
next
  case (Some d)
  then have f: "fetched_at row \<noteq> []" and l: "localDay rt (fetched_at row) = Some d"
    by (auto simp: day_of_def split: if_splits)
  have n: "map_of dm d = None \<longleftrightarrow> d \<notin> set (map fst dm)"
    by (simp add: map_of_eq_None_iff)
  show ?thesis
    by (simp add: visit_row_def f l Some Let_def update_keys n dom_update)
qed

lemma visit_row_lookup:
  "lookup2 (visit_row rt row dm) d g =
     lookup2 dm d g @ (if day_of rt row = Some d \<and> garage row = g then [status row] else [])"
proof (cases "day_of rt row")
  case None
  then show ?thesis by (auto simp: visit_row_def day_of_def split: if_splits)
next
  case (Some e)
  then have f: "fetched_at row \<noteq> []" and l: "localDay rt (fetched_at row) = Some e"
    by (auto simp: day_of_def split: if_splits)
  show ?thesis
    by (cases "map_of dm e")
       (auto simp: lookup2_def visit_row_def f l Some Let_def update_conv' split: option.splits)
qed

lemma group_rows_keys:
  "map fst (group_rows rt rs dm) =
     map fst dm @ firsts (map fst dm) (List.map_filter (day_of rt) rs)"
proof (induction rs arbitrary: dm)
  case Nil
  show ?case by (simp add: map_filter_simps)
next
  case (Cons row rs)
  show ?case
  proof (cases "day_of rt row")
    case None
    then have "map fst (visit_row rt row dm) = map fst dm" by (simp add: visit_row_keys)
    with Cons.IH [of "visit_row rt row dm"] None show ?thesis by (simp add: map_filter_simps)
  next
    case (Some d)
    show ?thesis
    proof (cases "d \<in> set (map fst dm)")
      case True
      with Some have "map fst (visit_row rt row dm) = map fst dm" by (simp add: visit_row_keys)
      with Cons.IH [of "visit_row rt row dm"] Some True show ?thesis
        by (simp add: map_filter_simps)
    next
      case False
      with Some have k: "map fst (visit_row rt row dm) = map fst dm @ [d]"
        by (simp add: visit_row_keys)
      have "firsts (map fst dm @ [d]) (List.map_filter (day_of rt) rs) =
            firsts (d # map fst dm) (List.map_filter (day_of rt) rs)"
        by (rule firsts_cong) simp
      with Cons.IH [of "visit_row rt row dm"] k Some False show ?thesis
        by (simp add: map_filter_simps)
    qed
  qed
qed

lemma group_rows_lookup:
  "lookup2 (group_rows rt rs dm) d g = lookup2 dm d g @ readings rt rs d g"
proof (induction rs arbitrary: dm)
  case Nil
  show ?case by (simp add: readings_def)
next
  case (Cons row rs)
  from Cons.IH [of "visit_row rt row dm"] show ?case
    by (simp add: visit_row_lookup readings_def)
qed

lemma math_round_div_nearest:
  assumes "0 < n"
  shows "2 * a - int n < 2 * int n * math_round_div a n
       \<and> 2 * int n * math_round_div a n \<le> 2 * a + int n"
proof -
  let ?m = "2 * int n" and ?b = "2 * a + int n"
  from assms have m: "0 < ?m" by simp
  have e: "?b = ?m * (?b div ?m) + ?b mod ?m" by simp
  from m have "0 \<le> ?b mod ?m" and "?b mod ?m < ?m"
    by (rule pos_mod_sign, rule pos_mod_bound)
  with e have "?m * (?b div ?m) \<le> ?b" and "?b < ?m * (?b div ?m) + ?m" by linarith+
  then show ?thesis unfolding math_round_div_def by linarith
qed

lemma dailyData_chart:
  "dailyData rt rs =
     map (\<lambda>d. \<lparr>date = label rt d,
               averages = map (\<lambda>g. (g, mean_rounded (readings rt rs d g))) GARAGES\<rparr>)
         (sort_key (midnight rt) (days_seen rt rs))"
proof -
  let ?dm = "group_rows rt rs []"
  have k: "map fst ?dm = days_seen rt rs"
    using group_rows_keys [of rt rs "[]"] by (simp add: days_seen_def)
  have l: "lookup2 ?dm d g = readings rt rs d g" for d g
    using group_rows_lookup [of rt rs "[]" d g] by (simp add: lookup2_def)
  have l': "(case map_of (case map_of ?dm d of None \<Rightarrow> [] | Some gm \<Rightarrow> gm) g of
              None \<Rightarrow> [] | Some a \<Rightarrow> a) = readings rt rs d g" for d g
    using l [of d g] by (simp add: lookup2_def)
  show ?thesis
  proof (cases "rs = []")
    case True
    then show ?thesis by (simp add: dailyData_def days_seen_def map_filter_simps)
  next
    case False
    show ?thesis
    proof (cases "?dm = []")
      case True
      with k have "days_seen rt rs = []" by simp
      with True False show ?thesis by (simp add: dailyData_def)
    next
      case dm: False
      with False show ?thesis
        unfolding dailyData_def by (simp add: Let_def k l' mean_rounded_def)
    qed
  qed
qed

text \<open>
  Claim C4, as amended. For every list of records and every runtime, the chart data are
  one data point for each local calendar day on which a record with a valid time stamp
  falls, the days in ascending order of time whatever the order of the records. A data
  point has a value for each of the four known garages and for no other garage: the
  arithmetic mean, rounded to the nearest integer, of the status values of the records
  of that day and that garage, and 0 when there is none. The rounded mean \<open>m\<close> of
  \<open>n\<close> values of sum \<open>a\<close> is within a half of \<open>a / n\<close>, a half rounding up:
  \<open>2a - n < 2nm \<le> 2a + n\<close>.
\<close>

theorem dailyData_groups_and_means:
  "dailyData rt rs =
     map (\<lambda>d. \<lparr>date = label rt d,
               averages = map (\<lambda>g. (g, mean_rounded (readings rt rs d g))) GARAGES\<rparr>)
         (sort_key (midnight rt) (days_seen rt rs))
   \<and> sorted (map (midnight rt) (sort_key (midnight rt) (days_seen rt rs)))
   \<and> distinct (days_seen rt rs)
   \<and> set (days_seen rt rs) = {d. \<exists>r\<in>set rs. day_of rt r = Some d}
   \<and> mean_rounded [] = 0
   \<and> (xs \<noteq> [] \<longrightarrow>
        2 * sum_list xs - int (length xs) < 2 * int (length xs) * mean_rounded xs
        \<and> 2 * int (length xs) * mean_rounded xs \<le> 2 * sum_list xs + int (length xs))"
proof (intro conjI impI)
  show "dailyData rt rs =
     map (\<lambda>d. \<lparr>date = label rt d,
               averages = map (\<lambda>g. (g, mean_rounded (readings rt rs d g))) GARAGES\<rparr>)
         (sort_key (midnight rt) (days_seen rt rs))"
    by (rule dailyData_chart)
  show "sorted (map (midnight rt) (sort_key (midnight rt) (days_seen rt rs)))"
    by (rule sorted_sort_key)
  show "distinct (days_seen rt rs)" by (simp add: days_seen_def firsts_props)
  show "set (days_seen rt rs) = {d. \<exists>r\<in>set rs. day_of rt r = Some d}"
    by (simp add: days_seen_def firsts_props set_map_filter_Some)
  show "mean_rounded [] = 0" by (simp add: mean_rounded_def)
next
  assume "xs \<noteq> []"
  then have "0 < length xs" by simp
  from math_round_div_nearest [OF this, of "sum_list xs"] \<open>xs \<noteq> []\<close>
  show "2 * sum_list xs - int (length xs) < 2 * int (length xs) * mean_rounded xs"
    and "2 * int (length xs) * mean_rounded xs \<le> 2 * sum_list xs + int (length xs)"
    by (simp_all add: mean_rounded_def)
qed

lemma example_known_chart:
  "map (\<lambda>d. \<lparr>date = label example_runtime d,
             averages = map (\<lambda>g. (g, mean_rounded (readings example_runtime example_known d g)))
                            GARAGES\<rparr>)
       (sort_key (midnight example_runtime) (days_seen example_runtime example_known))
   = [\<lparr>date = ''Jan 1'',
       averages = [(''South Garage'', 60), (''North Garage'', 100), (''West Garage'', 0),
                   (''South Campus Garage'', 0)]\<rparr>,
      \<lparr>date = ''Jan 2'',
       averages = [(''South Garage'', 0), (''North Garage'', 80), (''West Garage'', 0),
                   (''South Campus Garage'', 0)]\<rparr>]"
proof -
  have d: "days_seen example_runtime example_known = [(2024, 0, 2), (2024, 0, Suc 0)]"
    by (simp add: days_seen_def example_known_def known_row_def map_filter_simps day_of_def
        example_runtime_def digits_value_def digit_value_def)
  have s: "sort_key (midnight example_runtime) [(2024, 0, 2), (2024, 0, Suc 0)] =
           [(2024, 0, Suc 0), (2024, 0, 2)]"
    by (simp add: example_runtime_def)
  have r: "readings example_runtime example_known (2024, 0, Suc 0) g =
             (if g = ''South Garage'' then [70, 50] else if g = ''North Garage'' then [100] else [])"
          "readings example_runtime example_known (2024, 0, 2) g =
             (if g = ''North Garage'' then [80] else [])" for g
    by (auto simp: readings_def example_known_def known_row_def day_of_def
        example_runtime_def digits_value_def digit_value_def)
  have l: "label example_runtime (2024, 0, Suc 0) = ''Jan 1''"
          "label example_runtime (2024, 0, 2) = ''Jan 2''"
    by (simp_all add: example_runtime_def)
  show ?thesis
    unfolding d s by (simp add: r l GARAGES_def mean_rounded_def math_round_div_def)
qed

theorem dailyData_groups_and_means_witness:
  "dailyData example_runtime example_known =
     [\<lparr>date = ''Jan 1'',
       averages = [(''South Garage'', 60), (''North Garage'', 100), (''West Garage'', 0),
                   (''South Campus Garage'', 0)]\<rparr>,
      \<lparr>date = ''Jan 2'',
       averages = [(''South Garage'', 0), (''North Garage'', 80), (''West Garage'', 0),
                   (''South Campus Garage'', 0)]\<rparr>]
   \<and> mean_rounded [50, 70] = 60
   \<and> mean_rounded [1, 2] = 2"
proof -
  from dailyData_groups_and_means [of example_runtime example_known "[50, 70]"]
  have a: "dailyData example_runtime example_known =
     map (\<lambda>d. \<lparr>date = label example_runtime d,
             averages = map (\<lambda>g. (g, mean_rounded (readings example_runtime example_known d g)))
                            GARAGES\<rparr>)
       (sort_key (midnight example_runtime) (days_seen example_runtime example_known))"
    and b: "2 * sum_list [50, 70] - int (length [50, 70::int])
              < 2 * int (length [50, 70::int]) * mean_rounded [50, 70]"
           "2 * int (length [50, 70::int]) * mean_rounded [50, 70]
              \<le> 2 * sum_list [50, 70] + int (length [50, 70::int])"
    by simp_all
  from b have "mean_rounded [50, 70] = 60" by simp
  moreover from dailyData_groups_and_means [of example_runtime example_known "[1, 2]"]
  have "2 * sum_list [1, 2] - int (length [1, 2::int])
              < 2 * int (length [1, 2::int]) * mean_rounded [1, 2]"
           "2 * int (length [1, 2::int]) * mean_rounded [1, 2]
              \<le> 2 * sum_list [1, 2] + int (length [1, 2::int])"
    by simp_all
  then have "mean_rounded [1, 2] = 2" by simp
  ultimately show ?thesis using a by (simp only: example_known_chart)
qed

theorem example_chart_counterexample:
  "dailyData example_runtime example_listed =
     [\<lparr>date = ''Jan 1'',
       averages = [(''South Garage'', 0), (''North Garage'', 0), (''West Garage'', 0),
                   (''South Campus Garage'', 0)]\<rparr>]
   \<and> map_of (averages (hd (dailyData example_runtime example_listed))) ''A'' = None
   \<and> map_of (averages (hd (dailyData example_runtime example_listed))) ''B'' = None"
proof -
  have d: "days_seen example_runtime example_listed = [(2024, 0, Suc 0)]"
    by (simp add: days_seen_def example_listed_def rowA50_def rowA70_def rowB100_def
        map_filter_simps day_of_def example_runtime_def digits_value_def digit_value_def)
  have r: "g \<in> set GARAGES \<Longrightarrow> readings example_runtime example_listed (2024, 0, Suc 0) g = []" for g
    by (auto simp: readings_def example_listed_def rowA50_def rowA70_def rowB100_def GARAGES_def)
  have l: "label example_runtime (2024, 0, Suc 0) = ''Jan 1''"
    by (simp add: example_runtime_def)
  have "dailyData example_runtime example_listed =
     [\<lparr>date = ''Jan 1'',
       averages = [(''South Garage'', 0), (''North Garage'', 0), (''West Garage'', 0),
                   (''South Campus Garage'', 0)]\<rparr>]"
    unfolding dailyData_chart d
    using r by (simp add: l mean_rounded_def GARAGES_def)
  then show ?thesis by simp
qed

end
